theory Spec2Isabelle
  imports Main "HOL-Library.Word" "HOL-Library.Multiset"
begin

unbundle bit_operations_syntax

section \<open>Data model of block/bfq-iosched.c\<close>

text \<open>
  The scheduler runs on a 64-bit kernel: \<open>sector_t\<close> and \<open>unsigned long\<close> are 64-bit
  words, \<open>unsigned int\<close> is a 32-bit word. Word arithmetic wraps around as the C
  arithmetic on unsigned types does. Reference counts, queue counts, weights and
  weight-raising coefficients are only compared, incremented and decremented by the
  code; they are natural numbers here.

  Pointers are addresses: a request is named by its address (a natural number), a null
  pointer is \<open>None\<close>, and the memory holding the requests and the queues is part of the
  device data, so that two pointers are equal exactly when they name the same object.
\<close>

type_synonym sector_t = "64 word"
type_synonym ulong = "64 word"
type_synonym uint = "32 word"

datatype fault = BUG | NULL_DEREF | BAD_POINTER | DIV_BY_ZERO

text \<open>
  Modelled from the spec: \<open>struct request\<close> and its accessors \<open>blk_rq_pos\<close>,
  \<open>blk_rq_sectors\<close> and \<open>rq_is_sync\<close> are declared in linux/blkdev.h, which is
  not among the sources. The specification has requests indexed by starting sector,
  charged by their number of sectors, and sync or async, metadata-flagged or not. In
  the block layer \<open>blk_rq_pos\<close> returns \<open>__sector\<close> and \<open>blk_rq_sectors\<close>
  returns the byte length \<open>__data_len\<close> (an \<open>unsigned int\<close>) shifted right by 9;
  \<open>rq_is_sync\<close> and the test of \<open>REQ_META\<close> are predicates of \<open>cmd_flags\<close>,
  kept here by their outcome. \<open>elv_priv_bfqq\<close> is \<open>RQ_BFQQ(rq)\<close> and
  \<open>last_end_request\<close> is \<open>RQ_BIC(rq)->ttime.last_end_request\<close>.
\<close>

record request =
  sector :: sector_t
  data_len :: uint
  is_sync :: bool
  req_meta :: bool
  elv_priv_bfqq :: nat
  last_end_request :: ulong

definition blk_rq_pos :: "request \<Rightarrow> sector_t" where
  "blk_rq_pos rq = sector rq"

definition blk_rq_sectors :: "request \<Rightarrow> uint" where
  "blk_rq_sectors rq = drop_bit 9 (data_len rq)"

definition rq_is_sync :: "request \<Rightarrow> bool" where
  "rq_is_sync rq = is_sync rq"

text \<open>\<open>struct bfq_weight_counter\<close> and a tree of them, keyed by weight.\<close>

record bfq_weight_counter =
  wc_weight :: nat
  num_active :: nat

datatype rb_root = RB_EMPTY | RB_NODE rb_root bfq_weight_counter rb_root

text \<open>
  \<open>struct bfq_entity\<close>. \<open>weight_counter\<close> points to a counter held by a
  weight-counter tree. The tree holds one counter per weight, so the address of a counter
  is modelled by the weight it is filed under: \<open>Some w\<close> is the tree's counter of
  weight \<open>w\<close>.
\<close>

datatype st_tree = ST_NONE | ST_ACTIVE | ST_IDLE

record bfq_entity =
  budget :: ulong
  weight :: nat
  weight_counter :: "nat option"
  tree :: st_tree
  prio_changed :: bool

text \<open>
  \<open>struct bfq_queue\<close>. \<open>queued\<close> is the array \<open>queued[2]\<close>, indexed by
  \<open>rq_is_sync\<close>. The flags \<open>busy\<close>, \<open>sync\<close>, \<open>IO_bound\<close>, \<open>in_large_burst\<close>
  and \<open>softrt_update\<close> are the bits read by \<open>bfq_bfqq_*\<close>, set by
  \<open>bfq_mark_bfqq_*\<close> and reset by \<open>bfq_clear_bfqq_*\<close>.
\<close>

record bfq_queue =
  entity :: bfq_entity
  sort_list :: "nat list"
  next_rq :: "nat option"
  queued :: "bool \<Rightarrow> nat"
  max_budget :: ulong
  bic :: "nat option"
  wr_coeff :: nat
  wr_cur_max_time :: ulong
  last_wr_start_finish :: ulong
  soft_rt_next_start :: ulong
  budget_timeout :: ulong
  requests_within_timer :: nat
  last_idle_bklogged :: ulong
  service_from_backlogged :: ulong
  busy :: bool
  sync :: bool
  IO_bound :: bool
  in_large_burst :: bool
  softrt_update :: bool

text \<open>
  \<open>struct bfq_data\<close>, together with the memory of requests and queues. A queue is
  on the burst list (\<open>!hlist_unhashed(&bfqq->burst_list_node)\<close>) exactly when its
  address is in \<open>burst_list\<close>. \<open>activated\<close> records the calls of
  \<open>bfq_activate_bfqq\<close>, most recent first.
\<close>

record bfq_data =
  requests :: "nat \<Rightarrow> request"
  queues :: "nat \<Rightarrow> bfq_queue"
  bfqd_queued :: nat
  busy_queues :: nat
  in_service_queue :: "nat option"
  in_service_entity :: "nat option"
  last_position :: sector_t
  bfq_back_max :: uint
  bfq_back_penalty :: uint
  bfq_slice_idle :: ulong
  bfq_requests_within_timer :: nat
  low_latency :: bool
  bfq_wr_coeff :: nat
  bfq_wr_max_time :: uint
  bfq_wr_rt_max_time :: ulong
  bfq_wr_min_idle_time :: ulong
  bfq_wr_min_inter_arr_async :: ulong
  bfq_wr_max_softrt_rate :: nat
  RT_prod :: ulong
  peak_rate :: ulong
  wr_busy_queues :: nat
  burst_list :: "nat list"
  burst_size :: nat
  bfq_large_burst_thresh :: nat
  large_burst :: bool
  last_ins_in_burst :: ulong
  bfq_burst_interval :: ulong
  activated :: "nat list"

section \<open>The next-request chooser\<close>

definition BFQ_RQ1_WRAP :: uint where
  "BFQ_RQ1_WRAP = 1"

definition BFQ_RQ2_WRAP :: uint where
  "BFQ_RQ2_WRAP = 2"

text \<open>
  \<open>bfq_choose_req\<close> computes, for each of its two requests, the distance \<open>d\<close>
  from the head and the bit it contributes to the mask \<open>wrap\<close>; the source writes
  the same three-way branch twice, once for \<open>s1\<close>, \<open>d1\<close>, \<open>BFQ_RQ1_WRAP\<close>
  and once for \<open>s2\<close>, \<open>d2\<close>, \<open>BFQ_RQ2_WRAP\<close>. \<open>bfq_rq_distance\<close> is that
  branch: it returns the distance (0 where the source leaves the initial value) and the
  bits to be or-ed into \<open>wrap\<close>. \<open>bfq_back_penalty\<close> is widened to \<open>sector_t\<close>
  before it multiplies the distance.
\<close>

definition bfq_rq_distance ::
  "sector_t \<Rightarrow> sector_t \<Rightarrow> ulong \<Rightarrow> uint \<Rightarrow> uint \<Rightarrow> sector_t \<times> uint" where
  "bfq_rq_distance s last_pos back_max penalty wrap_bit =
     (if s \<ge> last_pos then (s - last_pos, 0)
      else if s + back_max \<ge> last_pos then ((last_pos - s) * ucast penalty, 0)
      else (0, wrap_bit))"

text \<open>
  The local \<open>back_max\<close> is an \<open>unsigned long\<close> initialised from the product
  \<open>bfqd->bfq_back_max * 2\<close> of an \<open>unsigned int\<close> and an \<open>int\<close>.
\<close>

definition back_max_sectors :: "bfq_data \<Rightarrow> ulong" where
  "back_max_sectors bfqd = ucast (bfq_back_max bfqd * 2)"

definition bfq_choose_req ::
  "bfq_data \<Rightarrow> nat option \<Rightarrow> nat option \<Rightarrow> sector_t \<Rightarrow> nat option" where
  "bfq_choose_req bfqd rq1 rq2 last_pos =
    (if rq1 = None \<or> rq1 = rq2 then rq2
     else if rq2 = None then rq1
     else
       let r1 = requests bfqd (the rq1); r2 = requests bfqd (the rq2) in
       if rq_is_sync r1 \<and> \<not> rq_is_sync r2 then rq1
       else if rq_is_sync r2 \<and> \<not> rq_is_sync r1 then rq2
       else if req_meta r1 \<and> \<not> req_meta r2 then rq1
       else if req_meta r2 \<and> \<not> req_meta r1 then rq2
       else
         let s1 = blk_rq_pos r1;
             s2 = blk_rq_pos r2;
             back_max = back_max_sectors bfqd;
             (d1, w1) = bfq_rq_distance s1 last_pos back_max (bfq_back_penalty bfqd) BFQ_RQ1_WRAP;
             (d2, w2) = bfq_rq_distance s2 last_pos back_max (bfq_back_penalty bfqd) BFQ_RQ2_WRAP;
             wrap = 0 OR w1 OR w2
         in
           if wrap = 0 then
             (if d1 < d2 then rq1
              else if d2 < d1 then rq2
              else if s1 \<ge> s2 then rq1 else rq2)
           else if wrap = BFQ_RQ2_WRAP then rq1
           else if wrap = BFQ_RQ1_WRAP then rq2
           else if s1 \<le> s2 then rq1 else rq2)"

text \<open>
  The chooser as the specification words it, over the natural numbers: the cost of
  reaching sector \<open>s\<close> from the head at \<open>last_pos\<close> is the forward distance, or
  the backward distance times the penalty when it is within the allowance, and
  \<open>None\<close> when the seek goes back beyond the allowance (a wrap-around).
\<close>

definition spec_seek_cost :: "nat \<Rightarrow> nat \<Rightarrow> nat \<Rightarrow> nat \<Rightarrow> nat option" where
  "spec_seek_cost back_max back_penalty last_pos s =
     (if last_pos \<le> s then Some (s - last_pos)
      else if last_pos - s \<le> back_max then Some ((last_pos - s) * back_penalty)
      else None)"

text \<open>
  \<open>spec_closer c1 s1 c2 s2\<close>: a request of cost \<open>c1\<close> at sector \<open>s1\<close> is to be
  served before one of cost \<open>c2\<close> at sector \<open>s2\<close>: the smaller cost wins, a
  wrap-around loses, and of two wrap-arounds the smaller start sector wins.
\<close>

fun spec_closer :: "nat option \<Rightarrow> nat \<Rightarrow> nat option \<Rightarrow> nat \<Rightarrow> bool" where
  "spec_closer (Some d1) s1 (Some d2) s2 = (d1 < d2)"
| "spec_closer (Some d1) s1 None s2 = True"
| "spec_closer None s1 (Some d2) s2 = False"
| "spec_closer None s1 None s2 = (s1 < s2)"

text \<open>
  \<open>spec_prefers\<close>: the order of preference of the specification: sync before async,
  then metadata before the rest, then the closer request.
\<close>

definition spec_prefers :: "nat \<Rightarrow> nat \<Rightarrow> nat \<Rightarrow> request \<Rightarrow> request \<Rightarrow> bool" where
  "spec_prefers back_max back_penalty last_pos r1 r2 =
     (if rq_is_sync r1 \<noteq> rq_is_sync r2 then rq_is_sync r1
      else if req_meta r1 \<noteq> req_meta r2 then req_meta r1
      else spec_closer
             (spec_seek_cost back_max back_penalty last_pos (unat (blk_rq_pos r1)))
             (unat (blk_rq_pos r1))
             (spec_seek_cost back_max back_penalty last_pos (unat (blk_rq_pos r2)))
             (unat (blk_rq_pos r2)))"

section \<open>Service charged for a request\<close>

definition bfq_async_charge_factor :: int where
  "bfq_async_charge_factor = 10"

text \<open>
  \<open>bfq_serv_to_charge\<close>. The factor is an \<open>int\<close>; multiplied with the
  \<open>unsigned int\<close> sector count it is converted to \<open>unsigned int\<close>, and the product
  is widened to the \<open>unsigned long\<close> result.
\<close>

definition bfq_serv_to_charge :: "request \<Rightarrow> bfq_queue \<Rightarrow> ulong" where
  "bfq_serv_to_charge rq bfqq =
     ucast (blk_rq_sectors rq *
       word_of_int (1 + (of_bool (\<not> sync bfqq) * of_bool (wr_coeff bfqq = 1) *
         bfq_async_charge_factor)))"

section \<open>Budget update after a new next request\<close>

definition upd_bfqq :: "nat \<Rightarrow> (bfq_queue \<Rightarrow> bfq_queue) \<Rightarrow> bfq_data \<Rightarrow> bfq_data" where
  "upd_bfqq q f bfqd = bfqd \<lparr> queues := (queues bfqd)(q := f (queues bfqd q)) \<rparr>"

text \<open>
  Modelled from the spec: \<open>bfq_activate_bfqq\<close> is defined in bfq-sched.c, which is
  not among the sources. The specification has an activated queue's entity (re)inserted
  into the active tree of its parent; the model sets the entity's tree and records the
  call in \<open>activated\<close>.
\<close>

definition bfq_activate_bfqq :: "bfq_data \<Rightarrow> nat \<Rightarrow> bfq_data" where
  "bfq_activate_bfqq bfqd q =
     (upd_bfqq q (\<lambda>b. b \<lparr> entity := (entity b) \<lparr> tree := ST_ACTIVE \<rparr> \<rparr>) bfqd)
       \<lparr> activated := q # activated bfqd \<rparr>"

text \<open>
  \<open>bfq_updated_next_req\<close>. The entity of a queue is named by the queue's address;
  \<open>in_service_entity\<close> is \<open>entity->sched_data->in_service_entity\<close>. A failed
  \<open>BUG_ON\<close> ends the call with \<open>Inl BUG\<close>.
\<close>

definition bfq_updated_next_req :: "bfq_data \<Rightarrow> nat \<Rightarrow> fault + bfq_data" where
  "bfq_updated_next_req bfqd q =
     (let bfqq = queues bfqd q in
      case next_rq bfqq of
        None \<Rightarrow> Inr bfqd
      | Some nrq \<Rightarrow>
          if in_service_queue bfqd = Some q then Inr bfqd
          else if tree (entity bfqq) \<noteq> ST_ACTIVE then Inl BUG
          else if in_service_entity bfqd = Some q then Inl BUG
          else
            let new_budget = max (max_budget bfqq) (bfq_serv_to_charge (requests bfqd nrq) bfqq)
            in if budget (entity bfqq) \<noteq> new_budget
               then Inr (bfq_activate_bfqq
                      (upd_bfqq q (\<lambda>b. b \<lparr> entity := (entity b) \<lparr> budget := new_budget \<rparr> \<rparr>) bfqd) q)
               else Inr bfqd)"

section \<open>Bursts of queue activations\<close>

text \<open>
  Modelled from the spec: the jiffies comparisons are macros of linux/jiffies.h, which
  is not among the sources. The specification has all wall-clock comparisons use
  wraparound-safe \<open>time_after\<close>/\<open>time_before\<close> semantics:
  \<open>time_after(a, b)\<close> is \<open>(long)(b - a) < 0\<close>, \<open>time_before(a, b)\<close> is
  \<open>time_after(b, a)\<close> and \<open>time_is_before_jiffies(a)\<close> is
  \<open>time_after(jiffies, a)\<close>. The value of \<open>jiffies\<close> is an argument of every
  function that reads it, one value for the whole call.
\<close>

definition time_after :: "ulong \<Rightarrow> ulong \<Rightarrow> bool" where
  "time_after a b = (sint (b - a) < 0)"

definition time_before :: "ulong \<Rightarrow> ulong \<Rightarrow> bool" where
  "time_before a b = time_after b a"

definition time_is_before_jiffies :: "ulong \<Rightarrow> ulong \<Rightarrow> bool" where
  "time_is_before_jiffies jiffies a = time_after jiffies a"

definition bfq_mark_bfqq_in_large_burst :: "nat \<Rightarrow> bfq_data \<Rightarrow> bfq_data" where
  "bfq_mark_bfqq_in_large_burst q bfqd = upd_bfqq q (\<lambda>b. b \<lparr> in_large_burst := True \<rparr>) bfqd"

definition bfq_clear_bfqq_in_large_burst :: "nat \<Rightarrow> bfq_data \<Rightarrow> bfq_data" where
  "bfq_clear_bfqq_in_large_burst q bfqd = upd_bfqq q (\<lambda>b. b \<lparr> in_large_burst := False \<rparr>) bfqd"

text \<open>
  Modelled from the spec: the list operations are those of linux/list.h, which is not
  among the sources; the specification keeps a transient list of the queues of a burst.
  \<open>hlist_del_init(&bfqq->burst_list_node)\<close> takes the queue off the burst list, and
  does nothing when the queue is on no list; \<open>hlist_add_head\<close> puts a queue at the
  head of the list.
\<close>

definition hlist_del_init :: "nat \<Rightarrow> bfq_data \<Rightarrow> bfq_data" where
  "hlist_del_init q bfqd = bfqd \<lparr> burst_list := removeAll q (burst_list bfqd) \<rparr>"

definition hlist_add_head :: "nat \<Rightarrow> bfq_data \<Rightarrow> bfq_data" where
  "hlist_add_head q bfqd = bfqd \<lparr> burst_list := q # burst_list bfqd \<rparr>"

text \<open>
  The loop \<open>hlist_for_each_entry_safe(..., &bfqd->burst_list, ...) hlist_del_init(...)\<close>
  over the items of the burst list, and the loop of \<open>bfq_add_to_burst\<close> that marks
  each item.
\<close>

fun del_each :: "nat list \<Rightarrow> bfq_data \<Rightarrow> bfq_data" where
  "del_each [] bfqd = bfqd"
| "del_each (item # n) bfqd = del_each n (hlist_del_init item bfqd)"

fun mark_each :: "nat list \<Rightarrow> bfq_data \<Rightarrow> bfq_data" where
  "mark_each [] bfqd = bfqd"
| "mark_each (bfqq_item # n) bfqd = mark_each n (bfq_mark_bfqq_in_large_burst bfqq_item bfqd)"

definition bfq_reset_burst_list :: "bfq_data \<Rightarrow> nat \<Rightarrow> bfq_data" where
  "bfq_reset_burst_list bfqd q =
     (hlist_add_head q (del_each (burst_list bfqd) bfqd)) \<lparr> burst_size := 1 \<rparr>"

definition bfq_add_to_burst :: "bfq_data \<Rightarrow> nat \<Rightarrow> bfq_data" where
  "bfq_add_to_burst bfqd q =
     (let bfqd = bfqd \<lparr> burst_size := burst_size bfqd + 1 \<rparr> in
      if burst_size bfqd = bfq_large_burst_thresh bfqd then
        let bfqd = bfqd \<lparr> large_burst := True \<rparr>;
            bfqd = mark_each (burst_list bfqd) bfqd;
            bfqd = bfq_mark_bfqq_in_large_burst q bfqd
        in del_each (burst_list bfqd) bfqd
      else hlist_add_head q bfqd)"

definition bfq_handle_burst :: "bfq_data \<Rightarrow> nat \<Rightarrow> bool \<Rightarrow> ulong \<Rightarrow> bfq_data" where
  "bfq_handle_burst bfqd q idle_for_long_time jiffies =
     (let bfqd = (if idle_for_long_time
                  then bfq_clear_bfqq_in_large_burst q (hlist_del_init q bfqd)
                  else bfqd)
      in if q \<in> set (burst_list bfqd) \<or> in_large_burst (queues bfqd q) then bfqd
         else if time_is_before_jiffies jiffies (last_ins_in_burst bfqd + bfq_burst_interval bfqd)
         then bfq_reset_burst_list (bfqd \<lparr> large_burst := False \<rparr>) q
         else if large_burst bfqd then bfq_mark_bfqq_in_large_burst q bfqd
         else bfq_add_to_burst bfqd q)"

section \<open>Adding a request\<close>

text \<open>
  \<open>bfq_wr_duration\<close>. Modelled from the spec: \<open>do_div\<close> is a macro of
  asm/div64.h, which is not among the sources; the specification computes the duration
  as a quotient by the peak rate. \<open>do_div(dur, bfqd->peak_rate)\<close> divides the 64-bit
  \<open>dur\<close> by the low 32 bits of its second argument; a zero divisor is the fault
  \<open>DIV_BY_ZERO\<close>. The result is cut to the \<open>unsigned int\<close> return type.
\<close>

definition bfq_wr_duration :: "bfq_data \<Rightarrow> fault + uint" where
  "bfq_wr_duration bfqd =
     (if bfq_wr_max_time bfqd > 0 then Inr (bfq_wr_max_time bfqd)
      else let base = (ucast (peak_rate bfqd) :: uint) in
        if base = 0 then Inl DIV_BY_ZERO
        else Inr (ucast (RT_prod bfqd div ucast base)))"

text \<open>
  Modelled from the spec: \<open>elv_rb_add\<close> belongs to the block layer and
  \<open>bfq_add_bfqq_busy\<close> to bfq-sched.c, neither among the sources. By the
  specification an added request enters its queue's sector-sorted set, and a queue
  that becomes busy is marked so and its entity is inserted into the active tree.
\<close>

definition elv_rb_add :: "bfq_data \<Rightarrow> nat list \<Rightarrow> nat \<Rightarrow> nat list" where
  "elv_rb_add bfqd root rq = insort_key (\<lambda>r. blk_rq_pos (requests bfqd r)) rq root"

definition bfq_add_bfqq_busy :: "bfq_data \<Rightarrow> nat \<Rightarrow> bfq_data" where
  "bfq_add_bfqq_busy bfqd q =
     (bfq_activate_bfqq (upd_bfqq q (\<lambda>b. b \<lparr> busy := True \<rparr>) bfqd) q)
       \<lparr> busy_queues := busy_queues bfqd + 1 \<rparr>"

text \<open>
  The weight-raising decision of \<open>bfq_add_request\<close> for a queue that goes from idle
  to busy while \<open>low_latency\<close> is on (the \<open>if\<close> ... \<open>else if\<close> statement after the
  test of \<open>low_latency\<close>, and the update of \<open>prio_changed\<close> that follows it).
\<close>

definition bfq_add_request_wr ::
  "bfq_data \<Rightarrow> bfq_queue \<Rightarrow> nat \<Rightarrow> bool \<Rightarrow> bool \<Rightarrow> bool \<Rightarrow> ulong \<Rightarrow> fault + bfq_queue" where
  "bfq_add_request_wr bfqd bfqq old_wr_coeff interactive soft_rt in_burst jiffies =
     (let r =
        (if old_wr_coeff = 1 \<and> (interactive \<or> soft_rt) \<and> (\<not> sync bfqq \<or> bic bfqq \<noteq> None) then
           (if interactive then
              (case bfq_wr_duration bfqd of
                 Inl f \<Rightarrow> Inl f
               | Inr dur \<Rightarrow>
                   Inr (bfqq \<lparr> wr_coeff := bfq_wr_coeff bfqd, wr_cur_max_time := ucast dur \<rparr>))
            else Inr (bfqq \<lparr> wr_coeff := bfq_wr_coeff bfqd,
                            wr_cur_max_time := bfq_wr_rt_max_time bfqd \<rparr>))
         else if old_wr_coeff > 1 then
           (if interactive then
              (case bfq_wr_duration bfqd of
                 Inl f \<Rightarrow> Inl f
               | Inr dur \<Rightarrow> Inr (bfqq \<lparr> wr_cur_max_time := ucast dur \<rparr>))
            else if in_burst \<or>
                    (wr_cur_max_time bfqq = bfq_wr_rt_max_time bfqd \<and> \<not> soft_rt)
            then Inr (bfqq \<lparr> wr_coeff := 1 \<rparr>)
            else if time_before (last_wr_start_finish bfqq + wr_cur_max_time bfqq)
                      (jiffies + bfq_wr_rt_max_time bfqd) \<and> soft_rt
            then Inr (bfqq \<lparr> last_wr_start_finish := jiffies,
                            wr_cur_max_time := bfq_wr_rt_max_time bfqd \<rparr>)
            else Inr bfqq)
         else Inr bfqq)
      in case r of
           Inl f \<Rightarrow> Inl f
         | Inr bfqq \<Rightarrow>
             Inr (if old_wr_coeff \<noteq> wr_coeff bfqq
                  then bfqq \<lparr> entity := (entity bfqq) \<lparr> prio_changed := True \<rparr> \<rparr>
                  else bfqq))"

text \<open>
  The branch of \<open>bfq_add_request\<close> for a queue that is not busy, in the order of the
  source: burst handling for a sync queue (\<open>bfq_add_request_burst\<close>), the two
  triggers, the budget, the \<open>IO_bound\<close> detection (\<open>bfq_add_request_io_bound\<close>),
  the weight-raising decision unless \<open>low_latency\<close> is off, and the statements at
  the label \<open>add_bfqq_busy\<close>. \<open>nrq\<close> is the request \<open>next_rq\<close> chosen before
  the branch.
\<close>

definition bfq_add_request_burst :: "bfq_data \<Rightarrow> nat \<Rightarrow> bool \<Rightarrow> ulong \<Rightarrow> bfq_data" where
  "bfq_add_request_burst bfqd q idle_for_long_time jiffies =
     (if sync (queues bfqd q) then
        let already_in_burst = (q \<in> set (burst_list bfqd) \<or> in_large_burst (queues bfqd q));
            bfqd = bfq_handle_burst bfqd q idle_for_long_time jiffies
        in if \<not> already_in_burst then bfqd \<lparr> last_ins_in_burst := jiffies \<rparr> else bfqd
      else bfqd)"

definition bfq_add_request_io_bound :: "bfq_data \<Rightarrow> nat \<Rightarrow> nat \<Rightarrow> ulong \<Rightarrow> bfq_data" where
  "bfq_add_request_io_bound bfqd rq q jiffies =
     (if \<not> IO_bound (queues bfqd q) then
        if time_before jiffies (last_end_request (requests bfqd rq) + bfq_slice_idle bfqd)
        then
          let bfqd = upd_bfqq q (\<lambda>b. b \<lparr> requests_within_timer :=
                       requests_within_timer b + 1 \<rparr>) bfqd
          in if requests_within_timer (queues bfqd q) \<ge> bfq_requests_within_timer bfqd
             then upd_bfqq q (\<lambda>b. b \<lparr> IO_bound := True \<rparr>) bfqd
             else bfqd
        else upd_bfqq q (\<lambda>b. b \<lparr> requests_within_timer := 0 \<rparr>) bfqd
      else bfqd)"

definition bfq_add_request_idle ::
  "bfq_data \<Rightarrow> nat \<Rightarrow> nat \<Rightarrow> nat \<Rightarrow> nat \<Rightarrow> ulong \<Rightarrow> fault + bfq_data" where
  "bfq_add_request_idle bfqd rq q nrq old_wr_coeff jiffies =
     (let idle_for_long_time =
            time_is_before_jiffies jiffies
              (budget_timeout (queues bfqd q) + bfq_wr_min_idle_time bfqd);
          bfqd = bfq_add_request_burst bfqd q idle_for_long_time jiffies;
          in_burst = in_large_burst (queues bfqd q);
          soft_rt = (bfq_wr_max_softrt_rate bfqd > 0 \<and> \<not> in_burst \<and>
                     time_is_before_jiffies jiffies (soft_rt_next_start (queues bfqd q)));
          interactive = (\<not> in_burst \<and> idle_for_long_time);
          bfqd = upd_bfqq q (\<lambda>b. b \<lparr> entity := (entity b)
                   \<lparr> budget := max (max_budget b)
                                  (bfq_serv_to_charge (requests bfqd nrq) b) \<rparr> \<rparr>) bfqd;
          bfqd = bfq_add_request_io_bound bfqd rq q jiffies;
          r = (if \<not> low_latency bfqd then Inr bfqd
               else case bfq_add_request_wr bfqd (queues bfqd q) old_wr_coeff interactive
                           soft_rt in_burst jiffies of
                      Inl f \<Rightarrow> Inl f
                    | Inr bfqq \<Rightarrow> Inr (upd_bfqq q (\<lambda>_. bfqq) bfqd))
      in case r of
           Inl f \<Rightarrow> Inl f
         | Inr bfqd \<Rightarrow>
             Inr (bfq_add_bfqq_busy
                    (upd_bfqq q (\<lambda>b. b \<lparr> last_idle_bklogged := jiffies,
                                         service_from_backlogged := 0,
                                         softrt_update := False \<rparr>) bfqd) q))"

text \<open>
  The branch of \<open>bfq_add_request\<close> for a queue that is already busy. \<open>prev\<close> is the
  value of \<open>next_rq\<close> before the request was added.
\<close>

definition bfq_add_request_busy ::
  "bfq_data \<Rightarrow> nat \<Rightarrow> nat \<Rightarrow> nat option \<Rightarrow> nat \<Rightarrow> ulong \<Rightarrow> fault + bfq_data" where
  "bfq_add_request_busy bfqd rq q prev old_wr_coeff jiffies =
     (let r =
        (if low_latency bfqd \<and> old_wr_coeff = 1 \<and> \<not> rq_is_sync (requests bfqd rq) \<and>
            time_is_before_jiffies jiffies
              (last_wr_start_finish (queues bfqd q) + bfq_wr_min_inter_arr_async bfqd)
         then
           (case bfq_wr_duration bfqd of
              Inl f \<Rightarrow> Inl f
            | Inr dur \<Rightarrow>
                Inr ((upd_bfqq q (\<lambda>b. b \<lparr> wr_coeff := bfq_wr_coeff bfqd,
                                            wr_cur_max_time := ucast dur,
                                            entity := (entity b) \<lparr> prio_changed := True \<rparr> \<rparr>) bfqd)
                       \<lparr> wr_busy_queues := wr_busy_queues bfqd + 1 \<rparr>))
         else Inr bfqd)
      in case r of
           Inl f \<Rightarrow> Inl f
         | Inr bfqd \<Rightarrow>
             if prev \<noteq> next_rq (queues bfqd q) then bfq_updated_next_req bfqd q
             else Inr bfqd)"

text \<open>
  \<open>bfq_add_request\<close>, as far as the source at hand goes (its text stops after the
  call of \<open>bfq_updated_next_req\<close>). The queue of the request is \<open>RQ_BFQQ(rq)\<close>.
  The calls of \<open>bfq_log_bfqq\<close> and, under \<open>CONFIG_BFQ_GROUP_IOSCHED\<close>, of
  \<open>bfqg_stats_update_io_add\<close> write to the log and to statistics only and are left
  out.
\<close>

definition bfq_add_request :: "bfq_data \<Rightarrow> nat \<Rightarrow> ulong \<Rightarrow> fault + bfq_data" where
  "bfq_add_request bfqd rq jiffies =
     (let q = elv_priv_bfqq (requests bfqd rq);
          old_wr_coeff = wr_coeff (queues bfqd q);
          s = rq_is_sync (requests bfqd rq);
          bfqd = upd_bfqq q (\<lambda>b. b \<lparr> queued := (queued b)(s := queued b s + 1) \<rparr>) bfqd;
          bfqd = bfqd \<lparr> bfqd_queued := bfqd_queued bfqd + 1 \<rparr>;
          bfqd = upd_bfqq q (\<lambda>b. b \<lparr> sort_list := elv_rb_add bfqd (sort_list b) rq \<rparr>) bfqd;
          prev = next_rq (queues bfqd q);
          chosen = bfq_choose_req bfqd prev (Some rq) (last_position bfqd)
      in case chosen of
           None \<Rightarrow> Inl BUG
         | Some nrq \<Rightarrow>
             let bfqd = upd_bfqq q (\<lambda>b. b \<lparr> next_rq := Some nrq \<rparr>) bfqd
             in if \<not> busy (queues bfqd q)
                then bfq_add_request_idle bfqd rq q nrq old_wr_coeff jiffies
                else bfq_add_request_busy bfqd rq q prev old_wr_coeff jiffies)"

text \<open>
  The value of the local \<open>in_burst\<close> of \<open>bfq_add_request\<close> for a queue that is
  not busy: the queue's \<open>in_large_burst\<close> flag once the burst handling is done. The
  statements that come before the burst handling write none of the fields it reads, so
  the value is computed from the state at the call.
\<close>

definition bfq_add_request_in_burst :: "bfq_data \<Rightarrow> nat \<Rightarrow> ulong \<Rightarrow> bool" where
  "bfq_add_request_in_burst bfqd rq jiffies =
     (let q = elv_priv_bfqq (requests bfqd rq);
          idle_for_long_time =
            time_is_before_jiffies jiffies
              (budget_timeout (queues bfqd q) + bfq_wr_min_idle_time bfqd)
      in in_large_burst (queues (bfq_add_request_burst bfqd q idle_for_long_time jiffies) q))"

text \<open>The fields of the device data that the burst handling reads and writes.\<close>

definition burst_view ::
  "bfq_data \<Rightarrow> nat list \<times> nat \<times> nat \<times> bool \<times> ulong \<times> ulong \<times> (nat \<Rightarrow> bool)" where
  "burst_view bfqd =
     (burst_list bfqd, burst_size bfqd, bfq_large_burst_thresh bfqd, large_burst bfqd,
      last_ins_in_burst bfqd, bfq_burst_interval bfqd, (\<lambda>x. in_large_burst (queues bfqd x)))"

section \<open>Weight-counter trees\<close>

text \<open>
  Modelled from the spec: the tree is kept by the red-black tree library
  (linux/rbtree.h), which is not among the sources; the specification has a red-black
  tree keyed by weight, each node carrying a reference count.
  \<open>rb_link_node\<close> puts a new node at the place the search ended,
  \<open>rb_insert_color\<close> and \<open>rb_erase\<close> restructure the tree and keep the order of
  its nodes. The model keeps the nodes in a search tree without rebalancing; what is
  proved of a tree is proved of the sequence of its counters in key order.
\<close>

fun inorder :: "rb_root \<Rightarrow> bfq_weight_counter list" where
  "inorder RB_EMPTY = []"
| "inorder (RB_NODE l c r) = inorder l @ c # inorder r"

definition rb_count :: "rb_root \<Rightarrow> nat" where
  "rb_count root = length (inorder root)"

text \<open>
  Following a counter pointer: the tree's counter of a given weight, and the tree after
  a store to the \<open>num_active\<close> of that counter.
\<close>

fun wc_lookup :: "rb_root \<Rightarrow> nat \<Rightarrow> bfq_weight_counter option" where
  "wc_lookup RB_EMPTY w = None"
| "wc_lookup (RB_NODE l c r) w =
     (if w = wc_weight c then Some c
      else if w < wc_weight c then wc_lookup l w else wc_lookup r w)"

fun wc_store :: "rb_root \<Rightarrow> nat \<Rightarrow> nat \<Rightarrow> rb_root" where
  "wc_store RB_EMPTY w n = RB_EMPTY"
| "wc_store (RB_NODE l c r) w n =
     (if w = wc_weight c then RB_NODE l (c \<lparr> num_active := n \<rparr>) r
      else if w < wc_weight c then RB_NODE (wc_store l w n) c r
      else RB_NODE l c (wc_store r w n))"

text \<open>
  The search loop of \<open>bfq_weights_tree_add\<close> with what follows it. Where the loop
  finds a counter of the entity's weight, the counter is incremented. Where it ends at
  an empty link, \<open>kzalloc\<close> returns a zeroed counter that gets the weight, is linked
  there and incremented; when \<open>kzalloc\<close> returns null (the first argument is
  \<open>False\<close>) the store to the counter's weight faults, and the result is \<open>None\<close>.
\<close>

fun weights_tree_insert :: "bool \<Rightarrow> rb_root \<Rightarrow> nat \<Rightarrow> rb_root option" where
  "weights_tree_insert kzalloc_ok RB_EMPTY w =
     (if kzalloc_ok
      then Some (RB_NODE RB_EMPTY \<lparr> wc_weight = w, num_active = 0 + 1 \<rparr> RB_EMPTY)
      else None)"
| "weights_tree_insert kzalloc_ok (RB_NODE l c r) w =
     (if w = wc_weight c then Some (RB_NODE l (c \<lparr> num_active := num_active c + 1 \<rparr>) r)
      else if w < wc_weight c
      then map_option (\<lambda>l'. RB_NODE l' c r) (weights_tree_insert kzalloc_ok l w)
      else map_option (\<lambda>r'. RB_NODE l c r') (weights_tree_insert kzalloc_ok r w))"

definition bfq_weights_tree_add ::
  "bool \<Rightarrow> bfq_entity \<Rightarrow> rb_root \<Rightarrow> fault + (bfq_entity \<times> rb_root)" where
  "bfq_weights_tree_add kzalloc_ok ent root =
     (if weight_counter ent \<noteq> None then Inr (ent, root)
      else case weights_tree_insert kzalloc_ok root (weight ent) of
             None \<Rightarrow> Inl NULL_DEREF
           | Some root' \<Rightarrow> Inr (ent \<lparr> weight_counter := Some (weight ent) \<rparr>, root'))"

text \<open>
  \<open>rb_erase\<close> of the counter of weight \<open>w\<close>: the node is unlinked and the
  nodes below it stay in the tree, in their order.
\<close>

fun rb_join :: "rb_root \<Rightarrow> rb_root \<Rightarrow> rb_root" where
  "rb_join RB_EMPTY r = r"
| "rb_join (RB_NODE ll lc lr) r = RB_NODE ll lc (rb_join lr r)"

fun rb_erase :: "nat \<Rightarrow> rb_root \<Rightarrow> rb_root" where
  "rb_erase w RB_EMPTY = RB_EMPTY"
| "rb_erase w (RB_NODE l c r) =
     (if w = wc_weight c then rb_join l r
      else if w < wc_weight c then RB_NODE (rb_erase w l) c r
      else RB_NODE l c (rb_erase w r))"

text \<open>
  \<open>bfq_weights_tree_remove\<close>. A pointer to a counter that the tree does not hold
  is the fault \<open>BAD_POINTER\<close>.
\<close>

definition bfq_weights_tree_remove ::
  "bfq_entity \<Rightarrow> rb_root \<Rightarrow> fault + (bfq_entity \<times> rb_root)" where
  "bfq_weights_tree_remove ent root =
     (case weight_counter ent of
        None \<Rightarrow> Inr (ent, root)
      | Some p \<Rightarrow>
          if root = RB_EMPTY then Inl BUG
          else
          (case wc_lookup root p of
             None \<Rightarrow> Inl BAD_POINTER
           | Some counter \<Rightarrow>
               if wc_weight counter \<noteq> weight ent then Inl BUG
               else if num_active counter = 0 then Inl BUG
               else
                 let n = num_active counter - 1 in
                 if n > 0
                 then Inr (ent \<lparr> weight_counter := None \<rparr>, wc_store root p n)
                 else Inr (ent \<lparr> weight_counter := None \<rparr>, rb_erase p root)))"

text \<open>
  The weights a tree holds a counter for, and the search-tree order the loop of
  \<open>bfq_weights_tree_add\<close> relies on.
\<close>

fun weights :: "rb_root \<Rightarrow> nat set" where
  "weights RB_EMPTY = {}"
| "weights (RB_NODE l c r) = weights l \<union> {wc_weight c} \<union> weights r"

fun search_tree :: "rb_root \<Rightarrow> bool" where
  "search_tree RB_EMPTY = True"
| "search_tree (RB_NODE l c r) =
     (search_tree l \<and> search_tree r \<and>
      (\<forall>k \<in> weights l. k < wc_weight c) \<and> (\<forall>k \<in> weights r. wc_weight c < k))"

text \<open>
  \<open>pointing es p\<close> is the number of entities whose \<open>weight_counter\<close> points to the
  counter \<open>p\<close>; \<open>tree_inv\<close> is what the two functions keep true of a tree and the
  entities that use it: the tree is ordered, \<open>num_active\<close> of every counter is the
  number of entities that point to it and is not 0, and an entity points to the counter
  of its own weight, which the tree holds.
\<close>

definition pointing :: "bfq_entity list \<Rightarrow> nat \<Rightarrow> nat" where
  "pointing es p = length (filter (\<lambda>e. weight_counter e = Some p) es)"

definition tree_inv :: "bfq_entity list \<Rightarrow> rb_root \<Rightarrow> bool" where
  "tree_inv es root =
     (search_tree root \<and>
      (\<forall>k c. wc_lookup root k = Some c \<longrightarrow> num_active c = pointing es k \<and> 0 < num_active c) \<and>
      (\<forall>e \<in> set es. \<forall>p. weight_counter e = Some p \<longrightarrow>
         p = weight e \<and> wc_lookup root p \<noteq> None))"

text \<open>
  The entities that share a weight-counter tree, and the states the two functions
  reach from the empty tree. An entity's weight is changed only while the entity has no
  counter, which is what \<open>BUG_ON(entity->weight_counter->weight != entity->weight)\<close>
  in \<open>bfq_weights_tree_remove\<close> asserts.
\<close>

inductive reachable :: "bfq_entity list \<Rightarrow> rb_root \<Rightarrow> bool" where
  init: "\<forall>e \<in> set es. weight_counter e = None \<Longrightarrow> reachable es RB_EMPTY"
| add: "reachable es root \<Longrightarrow> i < length es \<Longrightarrow>
        bfq_weights_tree_add kzalloc_ok (es ! i) root = Inr (e', root') \<Longrightarrow>
        reachable (es[i := e']) root'"
| remove: "reachable es root \<Longrightarrow> i < length es \<Longrightarrow>
        bfq_weights_tree_remove (es ! i) root = Inr (e', root') \<Longrightarrow>
        reachable (es[i := e']) root'"
| set_weight: "reachable es root \<Longrightarrow> i < length es \<Longrightarrow> weight_counter (es ! i) = None \<Longrightarrow>
        reachable (es[i := (es ! i) \<lparr> weight := w \<rparr>]) root"

section \<open>A device with the default tunables\<close>

text \<open>
  A device for the examples that follow. \<open>bfq_back_max\<close> and
  \<open>bfq_back_penalty\<close> are the constants of the source, the weight-raising
  coefficient of 30 and the large-burst threshold of 8 are those of the specification,
  and the times are in ticks; the memory holds sync requests of eight sectors and
  empty, idle sync queues.
\<close>

definition example_rq :: request where
  "example_rq = \<lparr> sector = 0, data_len = 4096, is_sync = True, req_meta = False,
     elv_priv_bfqq = 0, last_end_request = 0 \<rparr>"

definition example_entity :: bfq_entity where
  "example_entity = \<lparr> budget = 0, weight = 100, weight_counter = None, tree = ST_NONE,
     prio_changed = False \<rparr>"

definition example_bfqq :: bfq_queue where
  "example_bfqq = \<lparr> entity = example_entity, sort_list = [], next_rq = None,
     queued = (\<lambda>_. 0), max_budget = 16384, bic = Some 0, wr_coeff = 1,
     wr_cur_max_time = 0, last_wr_start_finish = 0, soft_rt_next_start = 0,
     budget_timeout = 0, requests_within_timer = 0, last_idle_bklogged = 0,
     service_from_backlogged = 0, busy = False, sync = True, IO_bound = False,
     in_large_burst = False, softrt_update = False \<rparr>"

definition example_bfqd :: bfq_data where
  "example_bfqd = \<lparr> requests = (\<lambda>_. example_rq), queues = (\<lambda>_. example_bfqq),
     bfqd_queued = 0, busy_queues = 0, in_service_queue = None, in_service_entity = None,
     last_position = 0, bfq_back_max = 16 * 1024, bfq_back_penalty = 2,
     bfq_slice_idle = 2, bfq_requests_within_timer = 120, low_latency = True,
     bfq_wr_coeff = 30, bfq_wr_max_time = 0, bfq_wr_rt_max_time = 75,
     bfq_wr_min_idle_time = 500, bfq_wr_min_inter_arr_async = 125,
     bfq_wr_max_softrt_rate = 7000, RT_prod = 1000000, peak_rate = 1000,
     wr_busy_queues = 0, burst_list = [], burst_size = 0, bfq_large_burst_thresh = 8,
     large_burst = False, last_ins_in_burst = 0, bfq_burst_interval = 32,
     activated = [] \<rparr>"


text \<open>
  The device of the specification's back-seek scenario: requests 1 and 2 start at
  sectors 2000 and 900, and the allowance is 1000 KiB, that is 2000 sectors.
\<close>

definition back_seek_bfqd :: bfq_data where
  "back_seek_bfqd = example_bfqd
     \<lparr> requests := (requests example_bfqd)
         (1 := example_rq \<lparr> sector := 2000 \<rparr>, 2 := example_rq \<lparr> sector := 900 \<rparr>),
       bfq_back_max := 1000 \<rparr>"

text \<open>
  A device whose request 1 starts two sectors below the top of the range of
  \<open>sector_t\<close>, and whose request 2 starts at sector 0.
\<close>

definition top_sector_bfqd :: bfq_data where
  "top_sector_bfqd = example_bfqd
     \<lparr> requests := (requests example_bfqd)
         (1 := example_rq \<lparr> sector := 18446744073709551614 \<rparr>,
          2 := example_rq \<lparr> sector := 0 \<rparr>) \<rparr>"

text \<open>
  A busy queue 0 on the active tree whose next request is request 1, with no queue in
  service, and the same device with queue 0 in service.
\<close>

definition waiting_bfqd :: bfq_data where
  "waiting_bfqd = example_bfqd
     \<lparr> queues := (queues example_bfqd)
         (0 := example_bfqq \<lparr> entity := example_entity \<lparr> tree := ST_ACTIVE \<rparr>,
                              next_rq := Some 1, busy := True \<rparr>) \<rparr>"

definition serving_bfqd :: bfq_data where
  "serving_bfqd = waiting_bfqd \<lparr> in_service_queue := Some 0 \<rparr>"

text \<open>
  A burst of seven activations with queues 3, 2 and 1 still on the burst list, the
  last one at time 100; and a device in large-burst mode.
\<close>

definition burst_bfqd :: bfq_data where
  "burst_bfqd = example_bfqd
     \<lparr> burst_list := [3, 2, 1], burst_size := 7, last_ins_in_burst := 100 \<rparr>"

definition large_burst_bfqd :: bfq_data where
  "large_burst_bfqd = example_bfqd \<lparr> large_burst := True, last_ins_in_burst := 100 \<rparr>"

text \<open>
  An idle queue 0 that is weight-raised and marked as part of a large burst, with
  \<open>low_latency\<close> on, and the same device with \<open>low_latency\<close> off.
\<close>

definition raised_burst_bfqd :: bfq_data where
  "raised_burst_bfqd = example_bfqd
     \<lparr> queues := (queues example_bfqd)
         (0 := example_bfqq \<lparr> wr_coeff := 30, in_large_burst := True \<rparr>) \<rparr>"

definition gated_bfqd :: bfq_data where
  "gated_bfqd = raised_burst_bfqd \<lparr> low_latency := False \<rparr>"

text \<open>
  An entity of weight 100 that has a counter, and the tree that holds this counter
  alone.
\<close>

definition tracked_entity :: bfq_entity where
  "tracked_entity = example_entity \<lparr> weight_counter := Some 100 \<rparr>"

definition one_counter_tree :: rb_root where
  "one_counter_tree = RB_NODE RB_EMPTY \<lparr> wc_weight = 100, num_active = 1 \<rparr> RB_EMPTY"

definition shared_counter_tree :: rb_root where
  "shared_counter_tree = RB_NODE RB_EMPTY \<lparr> wc_weight = 100, num_active = 2 \<rparr> RB_EMPTY"

section \<open>Facts about words\<close>

lemma unat_ucast_up: "unat (ucast (w :: uint) :: ulong) = unat w"
proof -
  have "unat w < 2 ^ 32" using unsigned_less [of w] by simp
  then have "unat w < 2 ^ 64" by simp
  then show ?thesis by (simp add: unsigned_ucast_eq take_bit_nat_eq_self)
qed

lemma unat_uint_less: "unat (w :: uint) < 4294967296"
  using unsigned_less [of w] by simp

lemma back_max_sectors_less: "unat (back_max_sectors bfqd) < 2 ^ 32"
  by (simp add: back_max_sectors_def unat_ucast_up unat_uint_less)

lemma penalised_distance:
  fixes s last_pos back_max :: ulong and penalty :: uint
  assumes "s < last_pos" and "unat last_pos - unat s \<le> unat back_max" and "unat back_max < 2 ^ 32"
  shows "unat ((last_pos - s) * ucast penalty) = (unat last_pos - unat s) * unat penalty"
proof -
  have d: "unat (last_pos - s) = unat last_pos - unat s"
    using assms(1) by (simp add: unat_sub)
  have "unat (last_pos - s) < 2 ^ 32" using d assms(2,3) by simp
  moreover have "unat (ucast penalty :: ulong) < 2 ^ 32"
    by (simp add: unat_ucast_up unat_uint_less)
  ultimately have "unat (last_pos - s) * unat (ucast penalty :: ulong) < 2 ^ 32 * 2 ^ 32"
    by (rule mult_strict_mono) simp_all
  then have "unat (last_pos - s) * unat (ucast penalty :: ulong) < 2 ^ LENGTH(64)" by simp
  then have "unat ((last_pos - s) * ucast penalty) = unat (last_pos - s) * unat (ucast penalty :: ulong)"
    by (simp only: unat_mult_lem)
  then show ?thesis by (simp add: d unat_ucast_up)
qed

lemma within_allowance:
  fixes s last_pos back_max :: ulong
  assumes "unat s + unat back_max < 2 ^ 64"
  shows "(last_pos \<le> s + back_max) = (unat last_pos - unat s \<le> unat back_max)"
proof -
  have "unat s + unat back_max < 2 ^ LENGTH(64)" using assms by simp
  then have "unat (s + back_max) = unat s + unat back_max" by (simp only: unat_add_lem)
  then show ?thesis by (auto simp: word_le_nat_alt)
qed

lemma bfq_rq_distance_wrap:
  fixes s last_pos back_max :: ulong and penalty :: uint
  assumes "last_pos \<le> s \<or> unat s + unat back_max < 2 ^ 64"
  shows "snd (bfq_rq_distance s last_pos back_max penalty wb) =
     (if spec_seek_cost (unat back_max) (unat penalty) (unat last_pos) (unat s) = None
      then wb else 0)"
proof (cases "last_pos \<le> s")
  case True
  then have "unat last_pos \<le> unat s" by (simp add: word_le_nat_alt)
  then show ?thesis using True by (simp add: bfq_rq_distance_def spec_seek_cost_def)
next
  case False
  then have o: "unat s + unat back_max < 2 ^ 64" using assms by simp
  show ?thesis
    by (simp add: bfq_rq_distance_def spec_seek_cost_def within_allowance [OF o]
        flip: word_le_nat_alt)
qed

lemma bfq_rq_distance_cost:
  fixes s last_pos back_max :: ulong and penalty :: uint
  assumes "last_pos \<le> s \<or> unat s + unat back_max < 2 ^ 64" and "unat back_max < 2 ^ 32"
    and "spec_seek_cost (unat back_max) (unat penalty) (unat last_pos) (unat s) = Some c"
  shows "unat (fst (bfq_rq_distance s last_pos back_max penalty wb)) = c"
proof (cases "last_pos \<le> s")
  case True
  then have "unat last_pos \<le> unat s" by (simp add: word_le_nat_alt)
  then have "c = unat s - unat last_pos" using assms(3) by (simp add: spec_seek_cost_def)
  then show ?thesis using True by (simp add: bfq_rq_distance_def unat_sub)
next
  case False
  then have lt: "s < last_pos" by simp
  from False have o: "unat s + unat back_max < 2 ^ 64" using assms(1) by simp
  from False have nle: "\<not> unat last_pos \<le> unat s" by (simp add: word_le_nat_alt)
  then have le: "unat last_pos - unat s \<le> unat back_max"
    and c: "c = (unat last_pos - unat s) * unat penalty"
    using assms(3) by (auto simp: spec_seek_cost_def split: if_splits)
  have wa: "last_pos \<le> s + back_max"
    using within_allowance [OF o, of last_pos] le by simp
  have "fst (bfq_rq_distance s last_pos back_max penalty wb) = (last_pos - s) * ucast penalty"
    using False wa by (simp add: bfq_rq_distance_def)
  then show ?thesis
    by (simp only: penalised_distance [OF lt le assms(2)] c)
qed

lemma choose_req_by_distance:
  assumes "a \<noteq> b"
    and "rq_is_sync (requests bfqd a) = rq_is_sync (requests bfqd b)"
    and "req_meta (requests bfqd a) = req_meta (requests bfqd b)"
  shows "bfq_choose_req bfqd (Some a) (Some b) last_pos =
    (let s1 = blk_rq_pos (requests bfqd a); s2 = blk_rq_pos (requests bfqd b);
         p1 = bfq_rq_distance s1 last_pos (back_max_sectors bfqd) (bfq_back_penalty bfqd) BFQ_RQ1_WRAP;
         p2 = bfq_rq_distance s2 last_pos (back_max_sectors bfqd) (bfq_back_penalty bfqd) BFQ_RQ2_WRAP;
         wrap = 0 OR snd p1 OR snd p2
     in if wrap = 0 then
          (if fst p1 < fst p2 then Some a else if fst p2 < fst p1 then Some b
           else if s1 \<ge> s2 then Some a else Some b)
        else if wrap = BFQ_RQ2_WRAP then Some a
        else if wrap = BFQ_RQ1_WRAP then Some b
        else if s1 \<le> s2 then Some a else Some b)"
  using assms by (simp add: bfq_choose_req_def Let_def split_beta)

lemma choose_req_closer:
  assumes ab: "a \<noteq> b"
    and sy: "rq_is_sync (requests bfqd a) = rq_is_sync (requests bfqd b)"
    and me: "req_meta (requests bfqd a) = req_meta (requests bfqd b)"
    and o1: "last_pos \<le> blk_rq_pos (requests bfqd a) \<or>
             unat (blk_rq_pos (requests bfqd a)) + unat (back_max_sectors bfqd) < 2 ^ 64"
    and o2: "last_pos \<le> blk_rq_pos (requests bfqd b) \<or>
             unat (blk_rq_pos (requests bfqd b)) + unat (back_max_sectors bfqd) < 2 ^ 64"
  shows "(spec_closer
            (spec_seek_cost (unat (back_max_sectors bfqd)) (unat (bfq_back_penalty bfqd)) (unat last_pos)
               (unat (blk_rq_pos (requests bfqd a)))) (unat (blk_rq_pos (requests bfqd a)))
            (spec_seek_cost (unat (back_max_sectors bfqd)) (unat (bfq_back_penalty bfqd)) (unat last_pos)
               (unat (blk_rq_pos (requests bfqd b)))) (unat (blk_rq_pos (requests bfqd b)))
          \<longrightarrow> bfq_choose_req bfqd (Some a) (Some b) last_pos = Some a) \<and>
         (spec_closer
            (spec_seek_cost (unat (back_max_sectors bfqd)) (unat (bfq_back_penalty bfqd)) (unat last_pos)
               (unat (blk_rq_pos (requests bfqd b)))) (unat (blk_rq_pos (requests bfqd b)))
            (spec_seek_cost (unat (back_max_sectors bfqd)) (unat (bfq_back_penalty bfqd)) (unat last_pos)
               (unat (blk_rq_pos (requests bfqd a)))) (unat (blk_rq_pos (requests bfqd a)))
          \<longrightarrow> bfq_choose_req bfqd (Some a) (Some b) last_pos = Some b)"
proof -
  let ?bm = "back_max_sectors bfqd" and ?pen = "bfq_back_penalty bfqd"
  let ?s1 = "blk_rq_pos (requests bfqd a)" and ?s2 = "blk_rq_pos (requests bfqd b)"
  let ?c1 = "spec_seek_cost (unat ?bm) (unat ?pen) (unat last_pos) (unat ?s1)"
  let ?c2 = "spec_seek_cost (unat ?bm) (unat ?pen) (unat last_pos) (unat ?s2)"
  let ?p1 = "bfq_rq_distance ?s1 last_pos ?bm ?pen BFQ_RQ1_WRAP"
  let ?p2 = "bfq_rq_distance ?s2 last_pos ?bm ?pen BFQ_RQ2_WRAP"
  note bm = back_max_sectors_less [of bfqd]
  have w1: "snd ?p1 = (if ?c1 = None then BFQ_RQ1_WRAP else 0)"
    by (rule bfq_rq_distance_wrap [OF o1])
  have w2: "snd ?p2 = (if ?c2 = None then BFQ_RQ2_WRAP else 0)"
    by (rule bfq_rq_distance_wrap [OF o2])
  note ch = choose_req_by_distance [OF ab sy me, of last_pos]
  show ?thesis
  proof (cases ?c1)
    case n1: None
    show ?thesis
    proof (cases ?c2)
      case n2: None
      show ?thesis
        unfolding ch Let_def w1 w2 n1 n2
        by (simp add: BFQ_RQ1_WRAP_def BFQ_RQ2_WRAP_def word_le_nat_alt)
    next
      case (Some d2)
      then show ?thesis unfolding ch Let_def w1 w2 n1
        by (simp add: BFQ_RQ1_WRAP_def BFQ_RQ2_WRAP_def)
    qed
  next
    case s1: (Some d1)
    show ?thesis
    proof (cases ?c2)
      case n2: None
      show ?thesis unfolding ch Let_def w1 w2 s1 n2
        by (simp add: BFQ_RQ1_WRAP_def BFQ_RQ2_WRAP_def)
    next
      case s2: (Some d2)
      have "unat (fst ?p1) = d1" by (rule bfq_rq_distance_cost [OF o1 bm s1])
      moreover have "unat (fst ?p2) = d2" by (rule bfq_rq_distance_cost [OF o2 bm s2])
      ultimately show ?thesis unfolding ch Let_def w1 w2 s1 s2
        by (simp add: word_less_nat_alt)
    qed
  qed
qed

lemma sectors_bound: "unat (blk_rq_sectors rq) < 2 ^ 23"
proof -
  have "unat (data_len rq) < 2 ^ 32" using unsigned_less [of "data_len rq"] by simp
  then have "unat (data_len rq) div 2 ^ 9 < 2 ^ 23" by simp
  then show ?thesis by (simp add: blk_rq_sectors_def drop_bit_eq_div unat_div)
qed

lemma charge_no_overflow: "unat (blk_rq_sectors rq * 11) = unat (blk_rq_sectors rq) * 11"
proof -
  have "unat (blk_rq_sectors rq) * unat (11 :: uint) < 2 ^ LENGTH(32)"
    using sectors_bound [of rq] by simp
  then have "unat (blk_rq_sectors rq * 11) = unat (blk_rq_sectors rq) * unat (11 :: uint)"
    by (simp only: unat_mult_lem)
  then show ?thesis by simp
qed

section \<open>Facts about the burst list\<close>

lemma del_each_list: "burst_list (del_each xs bfqd) = fold removeAll xs (burst_list bfqd)"
  by (induction xs arbitrary: bfqd) (simp_all add: hlist_del_init_def)

lemma fold_removeAll_subset: "set ys \<subseteq> set xs \<Longrightarrow> fold removeAll xs ys = []"
proof (induction xs arbitrary: ys)
  case Nil
  then show ?case by simp
next
  case (Cons x xs)
  have "set (removeAll x ys) \<subseteq> set xs" using Cons.prems by auto
  then show ?case using Cons.IH by simp
qed

lemma del_each_others:
  "queues (del_each xs bfqd) = queues bfqd" "large_burst (del_each xs bfqd) = large_burst bfqd"
  "burst_size (del_each xs bfqd) = burst_size bfqd"
  by (induction xs arbitrary: bfqd) (simp_all add: hlist_del_init_def)

lemma mark_each_flag:
  "in_large_burst (queues (mark_each xs bfqd) x) = (x \<in> set xs \<or> in_large_burst (queues bfqd x))"
  by (induction xs arbitrary: bfqd) (auto simp: bfq_mark_bfqq_in_large_burst_def upd_bfqq_def)

lemma mark_each_others:
  "burst_list (mark_each xs bfqd) = burst_list bfqd" "large_burst (mark_each xs bfqd) = large_burst bfqd"
  by (induction xs arbitrary: bfqd) (simp_all add: bfq_mark_bfqq_in_large_burst_def upd_bfqq_def)

lemma add_to_burst_large:
  assumes "burst_size bfqd + 1 = bfq_large_burst_thresh bfqd"
  shows "in_large_burst (queues (bfq_add_to_burst bfqd q) x) =
           (x \<in> set (burst_list bfqd) \<or> x = q \<or> in_large_burst (queues bfqd x))"
    and "burst_list (bfq_add_to_burst bfqd q) = []"
    and "large_burst (bfq_add_to_burst bfqd q)"
  using assms
  by (auto simp: bfq_add_to_burst_def Let_def del_each_others del_each_list mark_each_flag mark_each_others
      bfq_mark_bfqq_in_large_burst_def upd_bfqq_def fold_removeAll_subset)

lemma add_to_burst_small:
  assumes "burst_size bfqd + 1 \<noteq> bfq_large_burst_thresh bfqd"
  shows "queues (bfq_add_to_burst bfqd q) = queues bfqd"
    and "burst_list (bfq_add_to_burst bfqd q) = q # burst_list bfqd"
    and "large_burst (bfq_add_to_burst bfqd q) = large_burst bfqd"
  using assms
  by (auto simp: bfq_add_to_burst_def Let_def hlist_add_head_def)

lemma fresh_queue_untouched:
  assumes "q \<notin> set (burst_list bfqd)" and "\<not> in_large_burst (queues bfqd q)"
  shows "bfq_clear_bfqq_in_large_burst q (hlist_del_init q bfqd) = bfqd"
proof -
  have "(queues bfqd q) \<lparr> in_large_burst := False \<rparr> = queues bfqd q"
    using assms(2) by (cases "queues bfqd q") simp
  then have "(queues bfqd)(q := (queues bfqd q) \<lparr> in_large_burst := False \<rparr>) = queues bfqd"
    by simp
  then show ?thesis using assms(1)
    by (simp add: bfq_clear_bfqq_in_large_burst_def hlist_del_init_def upd_bfqq_def)
qed

lemma handle_burst_fresh:
  assumes "q \<notin> set (burst_list bfqd)" and "\<not> in_large_burst (queues bfqd q)"
    and "\<not> time_is_before_jiffies jiffies (last_ins_in_burst bfqd + bfq_burst_interval bfqd)"
  shows "bfq_handle_burst bfqd q idle jiffies =
           (if large_burst bfqd then bfq_mark_bfqq_in_large_burst q bfqd
            else bfq_add_to_burst bfqd q)"
  using assms
  by (simp add: bfq_handle_burst_def Let_def fresh_queue_untouched)

lemma handle_burst_large_mode:
  assumes "large_burst bfqd" and "burst_list bfqd = []"
    and "\<not> time_is_before_jiffies jiffies (last_ins_in_burst bfqd + bfq_burst_interval bfqd)"
  shows "in_large_burst (queues (bfq_handle_burst bfqd q idle jiffies) q)"
    and "burst_list (bfq_handle_burst bfqd q idle jiffies) = []"
    and "large_burst (bfq_handle_burst bfqd q idle jiffies)"
    and "x \<noteq> q \<Longrightarrow> queues (bfq_handle_burst bfqd q idle jiffies) x = queues bfqd x"
  using assms
  by (auto simp: bfq_handle_burst_def Let_def bfq_clear_bfqq_in_large_burst_def
      hlist_del_init_def bfq_mark_bfqq_in_large_burst_def upd_bfqq_def)

lemma handle_burst_long_idle_flag:
  "in_large_burst (queues (bfq_handle_burst bfqd q True jiffies) q) =
     (\<not> time_is_before_jiffies jiffies (last_ins_in_burst bfqd + bfq_burst_interval bfqd) \<and>
      (large_burst bfqd \<or> burst_size bfqd + 1 = bfq_large_burst_thresh bfqd))"
proof -
  let ?d = "bfq_clear_bfqq_in_large_burst q (hlist_del_init q bfqd)"
  have fresh: "q \<notin> set (burst_list ?d)" "\<not> in_large_burst (queues ?d q)"
    by (simp_all add: bfq_clear_bfqq_in_large_burst_def hlist_del_init_def upd_bfqq_def)
  have same: "last_ins_in_burst ?d = last_ins_in_burst bfqd"
    "bfq_burst_interval ?d = bfq_burst_interval bfqd" "large_burst ?d = large_burst bfqd"
    "burst_size ?d = burst_size bfqd" "bfq_large_burst_thresh ?d = bfq_large_burst_thresh bfqd"
    by (simp_all add: bfq_clear_bfqq_in_large_burst_def hlist_del_init_def upd_bfqq_def)
  have h: "bfq_handle_burst bfqd q True jiffies =
     (if time_is_before_jiffies jiffies (last_ins_in_burst bfqd + bfq_burst_interval bfqd)
      then bfq_reset_burst_list (?d \<lparr> large_burst := False \<rparr>) q
      else if large_burst bfqd then bfq_mark_bfqq_in_large_burst q ?d
      else bfq_add_to_burst ?d q)"
    using fresh by (simp add: bfq_handle_burst_def Let_def same)
  show ?thesis
  proof (cases "time_is_before_jiffies jiffies (last_ins_in_burst bfqd + bfq_burst_interval bfqd)")
    case True
    then show ?thesis using fresh
      by (simp add: h bfq_reset_burst_list_def hlist_add_head_def del_each_others)
  next
    case late: False
    show ?thesis
    proof (cases "large_burst bfqd")
      case True
      then show ?thesis using late
        by (simp add: h bfq_mark_bfqq_in_large_burst_def upd_bfqq_def)
    next
      case False
      show ?thesis
      proof (cases "burst_size bfqd + 1 = bfq_large_burst_thresh bfqd")
        case True
        then have "burst_size ?d + 1 = bfq_large_burst_thresh ?d" by (simp add: same)
        from add_to_burst_large(1) [OF this, of q q] show ?thesis
          using late False True by (simp add: h)
      next
        case ne: False
        then have "burst_size ?d + 1 \<noteq> bfq_large_burst_thresh ?d" by (simp add: same)
        from add_to_burst_small(1) [OF this, of q] show ?thesis
          using late False ne fresh by (simp add: h)
      qed
    qed
  qed
qed

section \<open>Facts about adding a request\<close>

lemma del_each_frame:
  "queues (del_each xs bfqd) = queues bfqd" "low_latency (del_each xs bfqd) = low_latency bfqd"
  by (induction xs arbitrary: bfqd) (simp_all add: hlist_del_init_def)

lemma mark_each_frame:
  "wr_coeff (queues (mark_each xs bfqd) x) = wr_coeff (queues bfqd x)"
  "low_latency (mark_each xs bfqd) = low_latency bfqd"
  by (induction xs arbitrary: bfqd) (simp_all add: bfq_mark_bfqq_in_large_burst_def upd_bfqq_def)

lemma add_to_burst_frame:
  "wr_coeff (queues (bfq_add_to_burst bfqd q) x) = wr_coeff (queues bfqd x)"
  "low_latency (bfq_add_to_burst bfqd q) = low_latency bfqd"
  by (simp_all add: bfq_add_to_burst_def Let_def del_each_frame mark_each_frame
      bfq_mark_bfqq_in_large_burst_def upd_bfqq_def hlist_add_head_def)

lemma handle_burst_frame:
  "wr_coeff (queues (bfq_handle_burst bfqd q idle jiffies) x) = wr_coeff (queues bfqd x)"
  "low_latency (bfq_handle_burst bfqd q idle jiffies) = low_latency bfqd"
  by (simp_all add: bfq_handle_burst_def Let_def add_to_burst_frame bfq_reset_burst_list_def
      del_each_frame hlist_add_head_def hlist_del_init_def
      bfq_mark_bfqq_in_large_burst_def bfq_clear_bfqq_in_large_burst_def upd_bfqq_def)

lemma add_request_wr_in_burst:
  assumes "bfq_add_request_wr bfqd bfqq old False False True jiffies = Inr bfqq'"
  shows "wr_coeff bfqq' = (if old > 1 then 1 else wr_coeff bfqq)"
    and "in_large_burst bfqq' = in_large_burst bfqq"
  using assms by (auto simp: bfq_add_request_wr_def Let_def split: if_splits)

lemma add_request_burst_frame:
  "wr_coeff (queues (bfq_add_request_burst bfqd q idle jiffies) x) = wr_coeff (queues bfqd x)"
  "low_latency (bfq_add_request_burst bfqd q idle jiffies) = low_latency bfqd"
  by (simp_all add: bfq_add_request_burst_def Let_def handle_burst_frame)

lemma add_request_io_bound_frame:
  "wr_coeff (queues (bfq_add_request_io_bound bfqd rq q jiffies) x) = wr_coeff (queues bfqd x)"
  "in_large_burst (queues (bfq_add_request_io_bound bfqd rq q jiffies) x) =
     in_large_burst (queues bfqd x)"
  "low_latency (bfq_add_request_io_bound bfqd rq q jiffies) = low_latency bfqd"
  by (simp_all add: bfq_add_request_io_bound_def Let_def upd_bfqq_def)

lemma add_bfqq_busy_frame:
  "wr_coeff (queues (bfq_add_bfqq_busy bfqd q) x) = wr_coeff (queues bfqd x)"
  "in_large_burst (queues (bfq_add_bfqq_busy bfqd q) x) = in_large_burst (queues bfqd x)"
  by (simp_all add: bfq_add_bfqq_busy_def bfq_activate_bfqq_def upd_bfqq_def)

lemma add_request_idle_in_burst:
  assumes r: "bfq_add_request_idle bfqd rq q nrq old jiffies = Inr bfqd'"
    and b: "in_large_burst (queues bfqd' q)"
  shows "wr_coeff (queues bfqd' q) =
           (if low_latency bfqd \<and> old > 1 then 1 else wr_coeff (queues bfqd q))"
proof -
  define idle where "idle = time_is_before_jiffies jiffies
              (budget_timeout (queues bfqd q) + bfq_wr_min_idle_time bfqd)"
  define d1 where "d1 = bfq_add_request_burst bfqd q idle jiffies"
  define d2 where "d2 = upd_bfqq q (\<lambda>b. b \<lparr> entity := (entity b)
                   \<lparr> budget := max (max_budget b)
                                  (bfq_serv_to_charge (requests d1 nrq) b) \<rparr> \<rparr>) d1"
  define d3 where "d3 = bfq_add_request_io_bound d2 rq q jiffies"
  define in_burst where "in_burst = in_large_burst (queues d1 q)"
  define soft_rt where "soft_rt = (bfq_wr_max_softrt_rate d1 > 0 \<and> \<not> in_burst \<and>
                     time_is_before_jiffies jiffies (soft_rt_next_start (queues d1 q)))"
  define interactive where "interactive = (\<not> in_burst \<and> idle)"
  define res where "res = (if \<not> low_latency d3 then Inr d3
               else case bfq_add_request_wr d3 (queues d3 q) old interactive
                           soft_rt in_burst jiffies of
                      Inl f \<Rightarrow> Inl f
                    | Inr bfqq \<Rightarrow> Inr (upd_bfqq q (\<lambda>_. bfqq) d3))"
  have unf: "bfq_add_request_idle bfqd rq q nrq old jiffies =
     (case res of Inl f \<Rightarrow> Inl f
      | Inr d \<Rightarrow> Inr (bfq_add_bfqq_busy
                    (upd_bfqq q (\<lambda>b. b \<lparr> last_idle_bklogged := jiffies,
                                         service_from_backlogged := 0,
                                         softrt_update := False \<rparr>) d) q))"
    by (simp only: bfq_add_request_idle_def Let_def res_def interactive_def soft_rt_def
        in_burst_def d3_def d2_def d1_def idle_def)
  from r unf obtain d4 where d4: "res = Inr d4"
    and fin: "bfqd' = bfq_add_bfqq_busy
                    (upd_bfqq q (\<lambda>b. b \<lparr> last_idle_bklogged := jiffies,
                                         service_from_backlogged := 0,
                                         softrt_update := False \<rparr>) d4) q"
    by (cases res) auto
  have wr': "wr_coeff (queues bfqd' q) = wr_coeff (queues d4 q)"
    and lb': "in_large_burst (queues bfqd' q) = in_large_burst (queues d4 q)"
    by (simp_all add: fin add_bfqq_busy_frame upd_bfqq_def)
  have wr3: "wr_coeff (queues d3 q) = wr_coeff (queues bfqd q)"
    by (simp add: d3_def add_request_io_bound_frame d2_def upd_bfqq_def d1_def
        add_request_burst_frame)
  have lb3: "in_large_burst (queues d3 q) = in_burst"
    by (simp add: d3_def add_request_io_bound_frame d2_def upd_bfqq_def in_burst_def)
  have ll3: "low_latency d3 = low_latency bfqd"
    by (simp add: d3_def add_request_io_bound_frame d2_def upd_bfqq_def d1_def
        add_request_burst_frame)
  show ?thesis
  proof (cases "low_latency bfqd")
    case False
    then have "d4 = d3" using d4 by (simp add: res_def ll3)
    then show ?thesis using False by (simp add: wr' wr3)
  next
    case True
    then obtain bfqq where w: "bfq_add_request_wr d3 (queues d3 q) old interactive
                           soft_rt in_burst jiffies = Inr bfqq"
      and d4': "d4 = upd_bfqq q (\<lambda>_. bfqq) d3"
      using d4 by (auto simp: res_def ll3 split: sum.splits)
    have q4: "queues d4 q = bfqq" by (simp add: d4' upd_bfqq_def)
    have "in_large_burst bfqq = in_large_burst (queues d3 q)"
      using w by (auto simp: bfq_add_request_wr_def Let_def split: if_splits sum.splits)
    then have ib: "in_burst" using b by (simp add: lb' q4 lb3)
    then have "interactive = False" "soft_rt = False"
      by (simp_all add: interactive_def soft_rt_def)
    with w ib have "bfq_add_request_wr d3 (queues d3 q) old False False True jiffies = Inr bfqq"
      by simp
    from add_request_wr_in_burst(1) [OF this] show ?thesis
      using True by (simp add: wr' q4 wr3)
  qed
qed

lemma mark_each_view:
  "burst_view (mark_each xs bfqd) =
     (burst_list bfqd, burst_size bfqd, bfq_large_burst_thresh bfqd, large_burst bfqd,
      last_ins_in_burst bfqd, bfq_burst_interval bfqd,
      (\<lambda>x. x \<in> set xs \<or> in_large_burst (queues bfqd x)))"
proof (induction xs arbitrary: bfqd)
  case Nil
  then show ?case by (simp add: burst_view_def)
next
  case (Cons a xs)
  show ?case
    by (auto simp: Cons.IH bfq_mark_bfqq_in_large_burst_def upd_bfqq_def fun_eq_iff)
qed

lemma del_each_view:
  "burst_view (del_each xs bfqd) =
     (fold removeAll xs (burst_list bfqd), burst_size bfqd, bfq_large_burst_thresh bfqd,
      large_burst bfqd, last_ins_in_burst bfqd, bfq_burst_interval bfqd,
      (\<lambda>x. in_large_burst (queues bfqd x)))"
proof (induction xs arbitrary: bfqd)
  case Nil
  then show ?case by (simp add: burst_view_def)
next
  case (Cons a xs)
  show ?case by (simp add: Cons.IH hlist_del_init_def)
qed

lemma view_fields:
  "burst_view d = burst_view d' \<Longrightarrow>
     burst_list d = burst_list d' \<and> burst_size d = burst_size d' \<and>
     bfq_large_burst_thresh d = bfq_large_burst_thresh d' \<and> large_burst d = large_burst d' \<and>
     last_ins_in_burst d = last_ins_in_burst d' \<and> bfq_burst_interval d = bfq_burst_interval d' \<and>
     (\<forall>x. in_large_burst (queues d x) = in_large_burst (queues d' x))"
  by (auto simp: burst_view_def fun_eq_iff)

lemma view_cong_upd:
  assumes "burst_view d = burst_view d'"
  shows "burst_view (bfq_mark_bfqq_in_large_burst q d) = burst_view (bfq_mark_bfqq_in_large_burst q d')"
    and "burst_view (bfq_clear_bfqq_in_large_burst q d) = burst_view (bfq_clear_bfqq_in_large_burst q d')"
    and "burst_view (hlist_del_init q d) = burst_view (hlist_del_init q d')"
    and "burst_view (hlist_add_head q d) = burst_view (hlist_add_head q d')"
    and "burst_view (d \<lparr> large_burst := b \<rparr>) = burst_view (d' \<lparr> large_burst := b \<rparr>)"
    and "burst_view (d \<lparr> burst_size := n \<rparr>) = burst_view (d' \<lparr> burst_size := n \<rparr>)"
    and "burst_view (d \<lparr> last_ins_in_burst := j \<rparr>) = burst_view (d' \<lparr> last_ins_in_burst := j \<rparr>)"
  using view_fields [OF assms]
  by (simp_all add: burst_view_def bfq_mark_bfqq_in_large_burst_def bfq_clear_bfqq_in_large_burst_def
      hlist_del_init_def hlist_add_head_def upd_bfqq_def fun_eq_iff)

lemma view_cong_add_to_burst:
  assumes "burst_view d = burst_view d'"
  shows "burst_view (bfq_add_to_burst d q) = burst_view (bfq_add_to_burst d' q)"
proof -
  note f = view_fields [OF assms]
  define d1 where "d1 = d \<lparr> burst_size := burst_size d + 1 \<rparr>"
  define d1' where "d1' = d' \<lparr> burst_size := burst_size d' + 1 \<rparr>"
  define d2 where "d2 = bfq_mark_bfqq_in_large_burst q
                          (mark_each (burst_list (d1 \<lparr> large_burst := True \<rparr>))
                             (d1 \<lparr> large_burst := True \<rparr>))"
  define d2' where "d2' = bfq_mark_bfqq_in_large_burst q
                          (mark_each (burst_list (d1' \<lparr> large_burst := True \<rparr>))
                             (d1' \<lparr> large_burst := True \<rparr>))"
  have 1: "burst_view d1 = burst_view d1'"
    using f view_cong_upd(6) [OF assms, of "burst_size d + 1"] by (simp add: d1_def d1'_def)
  note f1 = view_fields [OF 1]
  have "burst_view (d1 \<lparr> large_burst := True \<rparr>) = burst_view (d1' \<lparr> large_burst := True \<rparr>)"
    by (rule view_cong_upd(5) [OF 1])
  then have "burst_view (mark_each (burst_list (d1 \<lparr> large_burst := True \<rparr>)) (d1 \<lparr> large_burst := True \<rparr>)) =
             burst_view (mark_each (burst_list (d1' \<lparr> large_burst := True \<rparr>)) (d1' \<lparr> large_burst := True \<rparr>))"
    using f1 by (simp add: mark_each_view)
  then have 2: "burst_view d2 = burst_view d2'"
    unfolding d2_def d2'_def by (rule view_cong_upd(1))
  note f2 = view_fields [OF 2]
  have 3: "burst_view (del_each (burst_list d2) d2) = burst_view (del_each (burst_list d2') d2')"
    using f2 by (simp add: del_each_view)
  have 4: "burst_view (hlist_add_head q d1) = burst_view (hlist_add_head q d1')"
    by (rule view_cong_upd(4) [OF 1])
  have u: "bfq_add_to_burst d q =
      (if burst_size d1 = bfq_large_burst_thresh d1 then del_each (burst_list d2) d2
       else hlist_add_head q d1)"
    by (simp add: bfq_add_to_burst_def Let_def d1_def d2_def)
  have u': "bfq_add_to_burst d' q =
      (if burst_size d1' = bfq_large_burst_thresh d1' then del_each (burst_list d2') d2'
       else hlist_add_head q d1')"
    by (simp add: bfq_add_to_burst_def Let_def d1'_def d2'_def)
  show ?thesis unfolding u u' using f1 3 4 by simp
qed

lemma view_cong_handle_burst:
  assumes "burst_view d = burst_view d'"
  shows "burst_view (bfq_handle_burst d q i j) = burst_view (bfq_handle_burst d' q i j)"
proof -
  define c where "c = (if i then bfq_clear_bfqq_in_large_burst q (hlist_del_init q d) else d)"
  define c' where "c' = (if i then bfq_clear_bfqq_in_large_burst q (hlist_del_init q d') else d')"
  have cc: "burst_view c = burst_view c'"
    using assms view_cong_upd(2) [OF view_cong_upd(3) [OF assms]] by (simp add: c_def c'_def)
  note f = view_fields [OF cc]
  have h: "bfq_handle_burst d q i j =
      (if q \<in> set (burst_list c) \<or> in_large_burst (queues c q) then c
         else if time_is_before_jiffies j (last_ins_in_burst c + bfq_burst_interval c)
         then bfq_reset_burst_list (c \<lparr> large_burst := False \<rparr>) q
         else if large_burst c then bfq_mark_bfqq_in_large_burst q c
         else bfq_add_to_burst c q)"
    by (simp add: bfq_handle_burst_def Let_def c_def)
  have h': "bfq_handle_burst d' q i j =
      (if q \<in> set (burst_list c') \<or> in_large_burst (queues c' q) then c'
         else if time_is_before_jiffies j (last_ins_in_burst c' + bfq_burst_interval c')
         then bfq_reset_burst_list (c' \<lparr> large_burst := False \<rparr>) q
         else if large_burst c' then bfq_mark_bfqq_in_large_burst q c'
         else bfq_add_to_burst c' q)"
    by (simp add: bfq_handle_burst_def Let_def c'_def)
  have c0: "burst_view (c \<lparr> large_burst := False \<rparr>) = burst_view (c' \<lparr> large_burst := False \<rparr>)"
    by (rule view_cong_upd(5) [OF cc])
  have "burst_view (del_each (burst_list (c \<lparr> large_burst := False \<rparr>)) (c \<lparr> large_burst := False \<rparr>)) =
        burst_view (del_each (burst_list (c' \<lparr> large_burst := False \<rparr>)) (c' \<lparr> large_burst := False \<rparr>))"
    using view_fields [OF c0] by (simp add: del_each_view)
  then have r: "burst_view (bfq_reset_burst_list (c \<lparr> large_burst := False \<rparr>) q) =
           burst_view (bfq_reset_burst_list (c' \<lparr> large_burst := False \<rparr>) q)"
    unfolding bfq_reset_burst_list_def
    by (intro view_cong_upd(6) view_cong_upd(4))
  show ?thesis
    unfolding h h' using f cc r view_cong_upd(1) [OF cc] view_cong_add_to_burst [OF cc]
    by simp
qed

lemma view_cong_add_request_burst:
  assumes "burst_view d = burst_view d'" and "sync (queues d q) = sync (queues d' q)"
  shows "burst_view (bfq_add_request_burst d q i j) = burst_view (bfq_add_request_burst d' q i j)"
proof -
  note f = view_fields [OF assms(1)]
  note h = view_cong_handle_burst [OF assms(1), of q i j]
  show ?thesis
    using assms f h view_cong_upd(7) [OF h, of j]
    by (simp add: bfq_add_request_burst_def Let_def)
qed

lemma choose_req_some: "bfq_choose_req bfqd p (Some rq) l \<noteq> None"
  by (simp add: bfq_choose_req_def Let_def split_beta)

lemma add_request_wr_in_burst_returns:
  "\<exists>bfqq'. bfq_add_request_wr bfqd bfqq old False False True jiffies = Inr bfqq'"
  by (simp add: bfq_add_request_wr_def Let_def)

lemma add_request_wr_flag:
  "bfq_add_request_wr bfqd bfqq old ia srt ib jiffies = Inr bfqq' \<Longrightarrow>
   in_large_burst bfqq' = in_large_burst bfqq"
  by (auto simp: bfq_add_request_wr_def Let_def split: if_splits sum.splits)

lemma add_request_idle_unfold:
  "bfq_add_request_idle bfqd rq q nrq old jiffies =
     (let idle = time_is_before_jiffies jiffies
                   (budget_timeout (queues bfqd q) + bfq_wr_min_idle_time bfqd);
          d1 = bfq_add_request_burst bfqd q idle jiffies;
          in_burst = in_large_burst (queues d1 q);
          soft_rt = (bfq_wr_max_softrt_rate d1 > 0 \<and> \<not> in_burst \<and>
                     time_is_before_jiffies jiffies (soft_rt_next_start (queues d1 q)));
          interactive = (\<not> in_burst \<and> idle);
          d3 = bfq_add_request_io_bound
                 (upd_bfqq q (\<lambda>b. b \<lparr> entity := (entity b)
                    \<lparr> budget := max (max_budget b)
                                   (bfq_serv_to_charge (requests d1 nrq) b) \<rparr> \<rparr>) d1) rq q jiffies;
          res = (if \<not> low_latency d3 then Inr d3
                 else case bfq_add_request_wr d3 (queues d3 q) old interactive
                             soft_rt in_burst jiffies of
                        Inl f \<Rightarrow> Inl f
                      | Inr bfqq \<Rightarrow> Inr (upd_bfqq q (\<lambda>_. bfqq) d3))
      in case res of
           Inl f \<Rightarrow> Inl f
         | Inr d \<Rightarrow> Inr (bfq_add_bfqq_busy
                    (upd_bfqq q (\<lambda>b. b \<lparr> last_idle_bklogged := jiffies,
                                         service_from_backlogged := 0,
                                         softrt_update := False \<rparr>) d) q))"
  by (simp only: bfq_add_request_idle_def Let_def)

lemma add_request_idle_flag:
  assumes "bfq_add_request_idle bfqd rq q nrq old jiffies = Inr bfqd'"
  shows "in_large_burst (queues bfqd' q) =
           in_large_burst (queues (bfq_add_request_burst bfqd q
              (time_is_before_jiffies jiffies
                 (budget_timeout (queues bfqd q) + bfq_wr_min_idle_time bfqd)) jiffies) q)"
    and "busy (queues bfqd' q)"
  using assms
  by (auto simp: add_request_idle_unfold Let_def add_bfqq_busy_frame upd_bfqq_def
      add_request_io_bound_frame bfq_add_bfqq_busy_def bfq_activate_bfqq_def
      split: if_splits sum.splits dest: add_request_wr_flag)

lemma add_request_idle_returns:
  assumes "in_large_burst (queues (bfq_add_request_burst bfqd q
              (time_is_before_jiffies jiffies
                 (budget_timeout (queues bfqd q) + bfq_wr_min_idle_time bfqd)) jiffies) q)"
  shows "\<exists>bfqd'. bfq_add_request_idle bfqd rq q nrq old jiffies = Inr bfqd'"
proof -
  define d1 where "d1 = bfq_add_request_burst bfqd q
              (time_is_before_jiffies jiffies
                 (budget_timeout (queues bfqd q) + bfq_wr_min_idle_time bfqd)) jiffies"
  define d3 where "d3 = bfq_add_request_io_bound
                 (upd_bfqq q (\<lambda>b. b \<lparr> entity := (entity b)
                    \<lparr> budget := max (max_budget b)
                                   (bfq_serv_to_charge (requests d1 nrq) b) \<rparr> \<rparr>) d1) rq q jiffies"
  obtain bfqq' where "bfq_add_request_wr d3 (queues d3 q) old False False True jiffies = Inr bfqq'"
    using add_request_wr_in_burst_returns by blast
  then show ?thesis using assms
    by (simp add: add_request_idle_unfold Let_def flip: d1_def d3_def)
qed

lemma add_request_enters_idle_branch:
  assumes "\<not> busy (queues bfqd (elv_priv_bfqq (requests bfqd rq)))"
  shows "\<exists>d nrq. bfq_add_request bfqd rq jiffies =
           bfq_add_request_idle d rq (elv_priv_bfqq (requests bfqd rq)) nrq
             (wr_coeff (queues bfqd (elv_priv_bfqq (requests bfqd rq)))) jiffies \<and>
         burst_view d = burst_view bfqd \<and>
         (\<forall>x. sync (queues d x) = sync (queues bfqd x) \<and>
              budget_timeout (queues d x) = budget_timeout (queues bfqd x) \<and>
              wr_coeff (queues d x) = wr_coeff (queues bfqd x)) \<and>
         bfq_wr_min_idle_time d = bfq_wr_min_idle_time bfqd \<and>
         low_latency d = low_latency bfqd"
proof -
  define q where "q = elv_priv_bfqq (requests bfqd rq)"
  define s where "s = rq_is_sync (requests bfqd rq)"
  define d1 where "d1 = upd_bfqq q (\<lambda>b. b \<lparr> queued := (queued b)(s := queued b s + 1) \<rparr>) bfqd"
  define d2 where "d2 = d1 \<lparr> bfqd_queued := bfqd_queued d1 + 1 \<rparr>"
  define d3 where "d3 = upd_bfqq q (\<lambda>b. b \<lparr> sort_list := elv_rb_add d2 (sort_list b) rq \<rparr>) d2"
  define chosen where "chosen = bfq_choose_req d3 (next_rq (queues d3 q)) (Some rq) (last_position d3)"
  have unf: "bfq_add_request bfqd rq jiffies =
     (case chosen of None \<Rightarrow> Inl BUG
      | Some nrq \<Rightarrow>
         let d = upd_bfqq q (\<lambda>b. b \<lparr> next_rq := Some nrq \<rparr>) d3
         in if \<not> busy (queues d q)
            then bfq_add_request_idle d rq q nrq (wr_coeff (queues bfqd q)) jiffies
            else bfq_add_request_busy d rq q (next_rq (queues d3 q)) (wr_coeff (queues bfqd q)) jiffies)"
    by (simp only: bfq_add_request_def Let_def chosen_def d3_def d2_def d1_def s_def q_def)
  obtain nrq where c: "chosen = Some nrq"
    using choose_req_some [of d3 "next_rq (queues d3 q)" rq "last_position d3"]
    by (auto simp: chosen_def)
  define d where "d = upd_bfqq q (\<lambda>b. b \<lparr> next_rq := Some nrq \<rparr>) d3"
  have nb: "\<not> busy (queues d q)"
    using assms by (simp add: d_def d3_def d2_def d1_def upd_bfqq_def q_def)
  have "bfq_add_request bfqd rq jiffies =
          bfq_add_request_idle d rq q nrq (wr_coeff (queues bfqd q)) jiffies"
    using nb c by (simp add: unf d_def Let_def)
  moreover have "burst_view d = burst_view bfqd"
    by (simp add: burst_view_def d_def d3_def d2_def d1_def upd_bfqq_def fun_eq_iff)
  moreover have "\<forall>x. sync (queues d x) = sync (queues bfqd x) \<and>
              budget_timeout (queues d x) = budget_timeout (queues bfqd x) \<and>
              wr_coeff (queues d x) = wr_coeff (queues bfqd x)"
    by (simp add: d_def d3_def d2_def d1_def upd_bfqq_def)
  moreover have "bfq_wr_min_idle_time d = bfq_wr_min_idle_time bfqd" "low_latency d = low_latency bfqd"
    by (simp_all add: d_def d3_def d2_def d1_def upd_bfqq_def)
  ultimately show ?thesis unfolding q_def by blast
qed

text \<open>
  The branch of \<open>bfq_add_request\<close> for a queue that is already busy does not read
  \<open>in_large_burst\<close>: an async request that arrives late enough after
  \<open>last_wr_start_finish\<close> raises the \<open>wr_coeff\<close> of a queue that is not
  weight-raised, whether or not the queue is marked.
\<close>

lemma updated_next_req_frame:
  "bfq_updated_next_req bfqd q = Inr bfqd' \<Longrightarrow>
   wr_coeff (queues bfqd' x) = wr_coeff (queues bfqd x) \<and>
   in_large_burst (queues bfqd' x) = in_large_burst (queues bfqd x)"
  by (auto simp: bfq_updated_next_req_def Let_def bfq_activate_bfqq_def upd_bfqq_def
      split: option.splits if_splits)

lemma add_request_busy_raises:
  assumes "low_latency bfqd" and "\<not> rq_is_sync (requests bfqd rq)"
    and "time_is_before_jiffies jiffies
           (last_wr_start_finish (queues bfqd q) + bfq_wr_min_inter_arr_async bfqd)"
    and "bfq_add_request_busy bfqd rq q prev 1 jiffies = Inr bfqd'"
  shows "wr_coeff (queues bfqd' q) = bfq_wr_coeff bfqd \<and>
         in_large_burst (queues bfqd' q) = in_large_burst (queues bfqd q)"
proof -
  from assms obtain dur where "bfq_wr_duration bfqd = Inr dur"
    by (cases "bfq_wr_duration bfqd") (auto simp: bfq_add_request_busy_def Let_def)
  define d where "d = (upd_bfqq q (\<lambda>b. b \<lparr> wr_coeff := bfq_wr_coeff bfqd,
                                            wr_cur_max_time := ucast dur,
                                            entity := (entity b) \<lparr> prio_changed := True \<rparr> \<rparr>) bfqd)
                       \<lparr> wr_busy_queues := wr_busy_queues bfqd + 1 \<rparr>"
  have "bfqd' = d \<or> bfq_updated_next_req d q = Inr bfqd'"
    using assms \<open>bfq_wr_duration bfqd = Inr dur\<close>
    by (auto simp: bfq_add_request_busy_def Let_def d_def split: if_splits)
  moreover have "wr_coeff (queues d q) = bfq_wr_coeff bfqd"
    "in_large_burst (queues d q) = in_large_burst (queues bfqd q)"
    by (simp_all add: d_def upd_bfqq_def)
  ultimately show ?thesis using updated_next_req_frame [of d q bfqd' q] by auto
qed

section \<open>Facts about weight-counter trees\<close>

lemma weights_inorder: "weights t = wc_weight ` set (inorder t)"
  by (induction t) auto

lemma lookup_weight: "wc_lookup t k = Some c \<Longrightarrow> wc_weight c = k"
  by (induction t) (auto split: if_splits)

lemma lookup_None_iff: "search_tree t \<Longrightarrow> (wc_lookup t k = None) = (k \<notin> weights t)"
  by (induction t) auto

lemma distinct_weights:
  "search_tree t \<Longrightarrow> distinct (map wc_weight (inorder t))"
  by (induction t) (fastforce simp: weights_inorder)+

lemma rb_count_card: "search_tree t \<Longrightarrow> rb_count t = card (weights t)"
proof -
  assume "search_tree t"
  then have "distinct (map wc_weight (inorder t))" by (rule distinct_weights)
  then have "card (set (map wc_weight (inorder t))) = length (map wc_weight (inorder t))"
    by (rule distinct_card)
  then show ?thesis by (simp add: rb_count_def weights_inorder)
qed

lemma insert_weights:
  "weights_tree_insert ok t w = Some t' \<Longrightarrow> weights t' = insert w (weights t)"
  by (induction t arbitrary: t') (auto split: if_splits)

lemma insert_search_tree:
  "search_tree t \<Longrightarrow> weights_tree_insert ok t w = Some t' \<Longrightarrow> search_tree t'"
proof (induction t arbitrary: t')
  case RB_EMPTY
  then show ?case by (auto split: if_splits)
next
  case (RB_NODE l c r)
  show ?case
  proof (cases "w = wc_weight c")
    case True
    then show ?thesis using RB_NODE.prems by auto
  next
    case ne: False
    show ?thesis
    proof (cases "w < wc_weight c")
      case True
      then obtain l' where l': "weights_tree_insert ok l w = Some l'" and t': "t' = RB_NODE l' c r"
        using RB_NODE.prems(2) ne by auto
      have "search_tree l'" using RB_NODE.IH(1) [OF _ l'] RB_NODE.prems(1) by simp
      moreover have "weights l' = insert w (weights l)" by (rule insert_weights [OF l'])
      ultimately show ?thesis using RB_NODE.prems(1) True t' by auto
    next
      case False
      then obtain r' where r': "weights_tree_insert ok r w = Some r'" and t': "t' = RB_NODE l c r'"
        using RB_NODE.prems(2) ne by auto
      have "search_tree r'" using RB_NODE.IH(2) [OF _ r'] RB_NODE.prems(1) by simp
      moreover have "weights r' = insert w (weights r)" by (rule insert_weights [OF r'])
      ultimately show ?thesis using RB_NODE.prems(1) False ne t' by auto
    qed
  qed
qed

lemma insert_lookup:
  "weights_tree_insert ok t w = Some t' \<Longrightarrow>
   wc_lookup t' k =
     (if k = w
      then Some (case wc_lookup t w of
                   None \<Rightarrow> \<lparr> wc_weight = w, num_active = 1 \<rparr>
                 | Some c \<Rightarrow> c \<lparr> num_active := num_active c + 1 \<rparr>)
      else wc_lookup t k)"
  by (induction t arbitrary: t') (auto split: if_splits)

lemma insert_total: "\<exists>t'. weights_tree_insert True t w = Some t'"
  by (induction t) auto

lemma store_lookup:
  "wc_lookup t p = Some c \<Longrightarrow>
   wc_lookup (wc_store t p n) k = (if k = p then Some (c \<lparr> num_active := n \<rparr>) else wc_lookup t k)"
  by (induction t) (auto split: if_splits)

lemma store_weights: "weights (wc_store t p n) = weights t"
  by (induction t) auto

lemma store_search_tree: "search_tree t \<Longrightarrow> search_tree (wc_store t p n)"
  by (induction t) (auto simp: store_weights)

lemma join_weights: "weights (rb_join l r) = weights l \<union> weights r"
  by (induction l) auto

lemma join_search_tree:
  "search_tree l \<Longrightarrow> search_tree r \<Longrightarrow> (\<forall>a \<in> weights l. \<forall>b \<in> weights r. a < b) \<Longrightarrow>
   search_tree (rb_join l r)"
  by (induction l) (auto simp: join_weights)

lemma join_lookup:
  "search_tree l \<Longrightarrow> search_tree r \<Longrightarrow> (\<forall>a \<in> weights l. \<forall>b \<in> weights r. a < b) \<Longrightarrow>
   wc_lookup (rb_join l r) k = (if k \<in> weights l then wc_lookup l k else wc_lookup r k)"
proof (induction l)
  case RB_EMPTY
  then show ?case by simp
next
  case (RB_NODE ll lc lr)
  have ih: "wc_lookup (rb_join lr r) k = (if k \<in> weights lr then wc_lookup lr k else wc_lookup r k)"
    using RB_NODE by simp
  consider "k = wc_weight lc" | "k < wc_weight lc" | "wc_weight lc < k" by linarith
  then show ?case
  proof cases
    case 1
    then show ?thesis by simp
  next
    case 2
    then have "k \<notin> weights lr" "k \<notin> weights r" using RB_NODE.prems by auto
    then have "wc_lookup r k = None" using RB_NODE.prems(2) by (simp add: lookup_None_iff)
    moreover have "k \<notin> weights ll \<Longrightarrow> wc_lookup ll k = None"
      using RB_NODE.prems(1) by (simp add: lookup_None_iff)
    ultimately show ?thesis using 2 by auto
  next
    case 3
    then have "k \<notin> weights ll" using RB_NODE.prems by auto
    then show ?thesis using 3 ih by auto
  qed
qed

lemma erase_weights: "search_tree t \<Longrightarrow> weights (rb_erase p t) = weights t - {p}"
proof (induction t)
  case RB_EMPTY
  then show ?case by simp
next
  case (RB_NODE l c r)
  consider "p = wc_weight c" | "p < wc_weight c" | "wc_weight c < p" by linarith
  then show ?case
  proof cases
    case 1
    then have "p \<notin> weights l" "p \<notin> weights r" using RB_NODE.prems by auto
    then show ?thesis using 1 by (auto simp: join_weights)
  next
    case 2
    then have "p \<notin> weights r" using RB_NODE.prems by auto
    moreover have "weights (rb_erase p l) = weights l - {p}" using RB_NODE by simp
    ultimately show ?thesis using 2 by auto
  next
    case 3
    then have "p \<notin> weights l" using RB_NODE.prems by auto
    moreover have "weights (rb_erase p r) = weights r - {p}" using RB_NODE by simp
    ultimately show ?thesis using 3 by auto
  qed
qed

lemma erase_search_tree: "search_tree t \<Longrightarrow> search_tree (rb_erase p t)"
proof (induction t)
  case RB_EMPTY
  then show ?case by simp
next
  case (RB_NODE l c r)
  have "\<forall>a \<in> weights l. \<forall>b \<in> weights r. a < b"
    using RB_NODE.prems by (auto intro: less_trans)
  then have "search_tree (rb_join l r)" using RB_NODE.prems by (simp add: join_search_tree)
  moreover have "search_tree (RB_NODE (rb_erase p l) c r)"
    using RB_NODE by (simp add: erase_weights)
  moreover have "search_tree (RB_NODE l c (rb_erase p r))"
    using RB_NODE by (simp add: erase_weights)
  ultimately show ?case by simp
qed

lemma erase_lookup:
  "search_tree t \<Longrightarrow> wc_lookup (rb_erase p t) k = (if k = p then None else wc_lookup t k)"
proof (induction t)
  case RB_EMPTY
  then show ?case by simp
next
  case (RB_NODE l c r)
  have ord: "\<forall>a \<in> weights l. \<forall>b \<in> weights r. a < b"
    using RB_NODE.prems by (auto intro: less_trans)
  have ihl: "wc_lookup (rb_erase p l) k = (if k = p then None else wc_lookup l k)"
    and ihr: "wc_lookup (rb_erase p r) k = (if k = p then None else wc_lookup r k)"
    using RB_NODE by simp_all
  have nl: "\<And>x. x \<notin> weights l \<Longrightarrow> wc_lookup l x = None"
    and nr: "\<And>x. x \<notin> weights r \<Longrightarrow> wc_lookup r x = None"
    using RB_NODE.prems by (simp_all add: lookup_None_iff)
  consider "p = wc_weight c" | "p < wc_weight c" | "wc_weight c < p" by linarith
  then show ?case
  proof cases
    case 1
    have j: "wc_lookup (rb_join l r) k = (if k \<in> weights l then wc_lookup l k else wc_lookup r k)"
      using RB_NODE.prems ord by (simp add: join_lookup)
    have pl: "p \<notin> weights l" and pr: "p \<notin> weights r" using 1 RB_NODE.prems by auto
    consider "k = p" | "k < p" | "p < k" by linarith
    then show ?thesis
    proof cases
      case 1
      then show ?thesis using \<open>p = wc_weight c\<close> j pl pr nl nr by simp
    next
      case 2
      then have "k \<notin> weights r" using \<open>p = wc_weight c\<close> RB_NODE.prems by auto
      then show ?thesis using 2 \<open>p = wc_weight c\<close> j nl nr by auto
    next
      case 3
      then have "k \<notin> weights l" using \<open>p = wc_weight c\<close> RB_NODE.prems by auto
      then show ?thesis using 3 \<open>p = wc_weight c\<close> j by auto
    qed
  next
    case 2
    then show ?thesis using ihl by auto
  next
    case 3
    then show ?thesis using ihr by auto
  qed
qed

lemma pointing_update:
  "i < length es \<Longrightarrow>
   pointing (es[i := e']) k + (if weight_counter (es ! i) = Some k then 1 else 0) =
   pointing es k + (if weight_counter e' = Some k then 1 else 0)"
proof (induction es arbitrary: i)
  case Nil
  then show ?case by simp
next
  case (Cons e es)
  show ?case
  proof (cases i)
    case 0
    then show ?thesis by (simp add: pointing_def)
  next
    case (Suc j)
    then have "j < length es" using Cons.prems by simp
    from Cons.IH [OF this] show ?thesis using Suc by (simp add: pointing_def)
  qed
qed

lemma pointing_pos: "(0 < pointing es k) = (\<exists>e \<in> set es. weight_counter e = Some k)"
  by (simp add: pointing_def filter_empty_conv)

lemma set_update_cases: "x \<in> set (es[i := e']) \<Longrightarrow> x = e' \<or> x \<in> set es"
  using set_update_subset_insert [of es i e'] by auto

lemma inv_add:
  assumes inv: "tree_inv es root" and i: "i < length es"
    and a: "bfq_weights_tree_add ok (es ! i) root = Inr (e', root')"
  shows "tree_inv (es[i := e']) root'"
proof (cases "weight_counter (es ! i)")
  case (Some p)
  then have "e' = es ! i" "root' = root" using a by (simp_all add: bfq_weights_tree_add_def)
  then show ?thesis using inv by simp
next
  case None
  define w where "w = weight (es ! i)"
  from a None have ins: "weights_tree_insert ok root w = Some root'"
    and e': "e' = (es ! i) \<lparr> weight_counter := Some w \<rparr>"
    by (auto simp: bfq_weights_tree_add_def w_def split: option.splits)
  have st: "search_tree root"
    and cnt: "\<And>k c. wc_lookup root k = Some c \<Longrightarrow> num_active c = pointing es k \<and> 0 < num_active c"
    and ptr: "\<And>e p. e \<in> set es \<Longrightarrow> weight_counter e = Some p \<Longrightarrow>
                p = weight e \<and> wc_lookup root p \<noteq> None"
    using inv unfolding tree_inv_def by blast+
  have pt: "pointing (es[i := e']) k = pointing es k + (if k = w then 1 else 0)" for k
    using pointing_update [OF i, of e' k] None by (auto simp: e')
  note lk = insert_lookup [OF ins]
  have "search_tree root'" by (rule insert_search_tree [OF st ins])
  moreover have "num_active c = pointing (es[i := e']) k \<and> 0 < num_active c"
    if "wc_lookup root' k = Some c" for k c
  proof (cases "k = w")
    case False
    then show ?thesis using that cnt [of k c] by (simp add: lk pt)
  next
    case True
    show ?thesis
    proof (cases "wc_lookup root w")
      case None
      then have "\<not> (\<exists>e \<in> set es. weight_counter e = Some w)" using ptr by blast
      then have "pointing es w = 0" using pointing_pos [of es w] by simp
      then show ?thesis using that True None by (auto simp: lk pt)
    next
      case (Some c0)
      then show ?thesis using that True cnt [of w c0] by (auto simp: lk pt)
    qed
  qed
  moreover have "p = weight e \<and> wc_lookup root' p \<noteq> None"
    if "e \<in> set (es[i := e'])" and "weight_counter e = Some p" for e p
  proof -
    from set_update_cases [OF that(1)] show ?thesis
    proof
      assume "e = e'"
      then show ?thesis using that(2) by (simp add: e' w_def lk)
    next
      assume "e \<in> set es"
      from ptr [OF this that(2)] show ?thesis by (auto simp: lk)
    qed
  qed
  ultimately show ?thesis unfolding tree_inv_def by blast
qed

lemma inv_remove:
  assumes inv: "tree_inv es root" and i: "i < length es"
    and a: "bfq_weights_tree_remove (es ! i) root = Inr (e', root')"
  shows "tree_inv (es[i := e']) root'"
proof (cases "weight_counter (es ! i)")
  case None
  then have "e' = es ! i" "root' = root" using a by (simp_all add: bfq_weights_tree_remove_def)
  then show ?thesis using inv by simp
next
  case (Some p)
  from a Some obtain c where c: "wc_lookup root p = Some c"
    and e': "e' = (es ! i) \<lparr> weight_counter := None \<rparr>"
    and root': "root' = (if num_active c - 1 > 0 then wc_store root p (num_active c - 1)
                         else rb_erase p root)"
    by (auto simp: bfq_weights_tree_remove_def Let_def split: if_splits option.splits)
  have st: "search_tree root"
    and cnt: "\<And>k c. wc_lookup root k = Some c \<Longrightarrow> num_active c = pointing es k \<and> 0 < num_active c"
    and ptr: "\<And>e p. e \<in> set es \<Longrightarrow> weight_counter e = Some p \<Longrightarrow>
                p = weight e \<and> wc_lookup root p \<noteq> None"
    using inv unfolding tree_inv_def by blast+
  have pt: "pointing (es[i := e']) k + (if k = p then 1 else 0) = pointing es k" for k
    using pointing_update [OF i, of e' k] Some by (auto simp: e')
  have lk: "wc_lookup root' k =
      (if k = p then (if num_active c - 1 > 0 then Some (c \<lparr> num_active := num_active c - 1 \<rparr>)
                      else None)
       else wc_lookup root k)" for k
    by (simp add: root' store_lookup [OF c] erase_lookup [OF st])
  have "search_tree root'"
    by (simp add: root' store_search_tree [OF st] erase_search_tree [OF st])
  moreover have "num_active c' = pointing (es[i := e']) k \<and> 0 < num_active c'"
    if "wc_lookup root' k = Some c'" for k c'
  proof (cases "k = p")
    case False
    then show ?thesis using that cnt [of k c'] pt [of k] by (simp add: lk)
  next
    case True
    then show ?thesis using that cnt [OF c] pt [of p] by (auto simp: lk split: if_splits)
  qed
  moreover have "q = weight e \<and> wc_lookup root' q \<noteq> None"
    if "e \<in> set (es[i := e'])" and "weight_counter e = Some q" for e q
  proof -
    have "e \<in> set es" using set_update_cases [OF that(1)] that(2) by (auto simp: e')
    note old = ptr [OF this that(2)]
    show ?thesis
    proof (cases "q = p")
      case False
      then show ?thesis using old by (auto simp: lk)
    next
      case True
      then have "0 < pointing (es[i := e']) p" using that pointing_pos by blast
      then have "1 < pointing es p" using pt [of p] by simp
      then have "num_active c - 1 > 0" using cnt [OF c] by simp
      then show ?thesis using old True by (auto simp: lk)
    qed
  qed
  ultimately show ?thesis unfolding tree_inv_def by blast
qed

lemma inv_set_weight:
  assumes inv: "tree_inv es root" and i: "i < length es" and n: "weight_counter (es ! i) = None"
  shows "tree_inv (es[i := (es ! i) \<lparr> weight := w \<rparr>]) root"
proof -
  have pt: "pointing (es[i := (es ! i) \<lparr> weight := w \<rparr>]) k = pointing es k" for k
    using pointing_update [OF i, of "(es ! i) \<lparr> weight := w \<rparr>" k] n by simp
  have "e \<in> set es" if "e \<in> set (es[i := (es ! i) \<lparr> weight := w \<rparr>])" and "weight_counter e = Some q"
    for e q
    using set_update_cases [OF that(1)] that(2) n by auto
  then show ?thesis using inv unfolding tree_inv_def pt by blast
qed

lemma inv_init: "\<forall>e \<in> set es. weight_counter e = None \<Longrightarrow> tree_inv es RB_EMPTY"
  by (simp add: tree_inv_def)

lemma reachable_inv: "reachable es root \<Longrightarrow> tree_inv es root"
proof (induction rule: reachable.induct)
  case (init es)
  then show ?case by (rule inv_init)
next
  case (add es root i kzalloc_ok e' root')
  then show ?case by (intro inv_add)
next
  case (remove es root i e' root')
  then show ?case by (intro inv_remove)
next
  case (set_weight es root i w)
  then show ?case by (intro inv_set_weight)
qed

lemma insert_then_erase:
  "weights_tree_insert ok t w = Some t' \<Longrightarrow> wc_lookup t w = None \<Longrightarrow> rb_erase w t' = t"
  by (induction t arbitrary: t') (auto split: if_splits)

lemma insert_then_store:
  "weights_tree_insert ok t w = Some t' \<Longrightarrow> wc_lookup t w = Some c \<Longrightarrow>
   wc_store t' w (num_active c) = t"
  by (induction t arbitrary: t') (auto split: if_splits)

lemma insert_new_count:
  "weights_tree_insert ok t w = Some t' \<Longrightarrow> wc_lookup t w = None \<Longrightarrow>
   rb_count t' = rb_count t + 1"
  by (induction t arbitrary: t') (auto simp: rb_count_def split: if_splits)

lemma add_then_remove:
  assumes inv: "tree_inv es root" and n: "weight_counter ent = None"
    and a: "bfq_weights_tree_add ok ent root = Inr (ent1, root1)"
  shows "bfq_weights_tree_remove ent1 root1 = Inr (ent1 \<lparr> weight_counter := None \<rparr>, root)"
proof -
  define w where "w = weight ent"
  from a n have ins: "weights_tree_insert ok root w = Some root1"
    and e1: "ent1 = ent \<lparr> weight_counter := Some w \<rparr>"
    by (auto simp: bfq_weights_tree_add_def w_def split: option.splits)
  note lk = insert_lookup [OF ins, of w]
  have ne: "root1 \<noteq> RB_EMPTY" using lk by auto
  show ?thesis
  proof (cases "wc_lookup root w")
    case None
    have "rb_erase w root1 = root" by (rule insert_then_erase [OF ins None])
    then show ?thesis using None lk ne
      by (simp add: bfq_weights_tree_remove_def e1 w_def Let_def)
  next
    case (Some c)
    then have pos: "0 < num_active c" and wc: "wc_weight c = w"
      using inv lookup_weight [OF Some] unfolding tree_inv_def by blast+
    have "wc_store root1 w (num_active c) = root" by (rule insert_then_store [OF ins Some])
    then show ?thesis using Some lk ne pos wc
      by (simp add: bfq_weights_tree_remove_def e1 w_def Let_def)
  qed
qed

lemma tracked_weights:
  assumes "tree_inv es root"
  shows "weights root = weight ` {e \<in> set es. weight_counter e \<noteq> None}"
proof (intro set_eqI iffI)
  fix k assume "k \<in> weights root"
  have st: "search_tree root" using assms by (simp add: tree_inv_def)
  then obtain c where c: "wc_lookup root k = Some c"
    using \<open>k \<in> weights root\<close> lookup_None_iff [OF st, of k] by auto
  then have "0 < pointing es k" using assms unfolding tree_inv_def by metis
  then obtain e where e: "e \<in> set es" "weight_counter e = Some k"
    using pointing_pos by blast
  then have "k = weight e" using assms unfolding tree_inv_def by blast
  then show "k \<in> weight ` {e \<in> set es. weight_counter e \<noteq> None}" using e by auto
next
  fix k assume "k \<in> weight ` {e \<in> set es. weight_counter e \<noteq> None}"
  then obtain e p where e: "e \<in> set es" "weight_counter e = Some p" "k = weight e" by auto
  then have "p = weight e" "wc_lookup root p \<noteq> None"
    using assms unfolding tree_inv_def by blast+
  moreover have "search_tree root" using assms by (simp add: tree_inv_def)
  ultimately show "k \<in> weights root" using e(3) lookup_None_iff [of root p] by auto
qed

section \<open>Properties of the specification\<close>

text \<open>
  C1, as amended. For two distinct requests such that, for each one that starts behind
  the head, its start sector plus the allowance \<open>back_max\<close> stays within the range
  of \<open>sector_t\<close>, \<open>bfq_choose_req\<close> returns the request the specification's order
  prefers: a sync request before an async one, then a request flagged \<open>REQ_META\<close>
  before one that is not, then the smaller distance from \<open>last_pos\<close>, where a
  forward distance is \<open>sector - last_pos\<close>, a backward distance within the allowance
  is \<open>(last_pos - sector) * back_penalty\<close>, a backward seek beyond the allowance is
  a wrap-around that loses against any distance, and of two wrap-arounds the smaller
  start sector wins.
\<close>

theorem bfq_choose_req_order:
  assumes "a \<noteq> b"
    and "last_pos \<le> blk_rq_pos (requests bfqd a) \<or>
         unat (blk_rq_pos (requests bfqd a)) + unat (back_max_sectors bfqd) < 2 ^ 64"
    and "last_pos \<le> blk_rq_pos (requests bfqd b) \<or>
         unat (blk_rq_pos (requests bfqd b)) + unat (back_max_sectors bfqd) < 2 ^ 64"
  shows "(spec_prefers (unat (back_max_sectors bfqd)) (unat (bfq_back_penalty bfqd)) (unat last_pos)
            (requests bfqd a) (requests bfqd b)
          \<longrightarrow> bfq_choose_req bfqd (Some a) (Some b) last_pos = Some a) \<and>
         (spec_prefers (unat (back_max_sectors bfqd)) (unat (bfq_back_penalty bfqd)) (unat last_pos)
            (requests bfqd b) (requests bfqd a)
          \<longrightarrow> bfq_choose_req bfqd (Some a) (Some b) last_pos = Some b)"
proof (cases "rq_is_sync (requests bfqd a) = rq_is_sync (requests bfqd b)")
  case False
  then show ?thesis using assms(1)
    by (auto simp: spec_prefers_def bfq_choose_req_def Let_def)
next
  case sy: True
  show ?thesis
  proof (cases "req_meta (requests bfqd a) = req_meta (requests bfqd b)")
    case False
    then show ?thesis using assms(1) sy
      by (auto simp: spec_prefers_def bfq_choose_req_def Let_def)
  next
    case True
    show ?thesis
      using choose_req_closer [OF assms(1) sy True assms(2,3)] sy True
      by (simp add: spec_prefers_def)
  qed
qed

text \<open>
  The theorem at the back-seek scenario: request 2, 100 sectors behind the head, is
  preferred to request 1, 1000 sectors ahead, and is returned.
\<close>

theorem bfq_choose_req_order_witness:
  "(1::nat) \<noteq> 2 \<and>
   (1000 :: sector_t) \<le> blk_rq_pos (requests back_seek_bfqd 1) \<and>
   unat (blk_rq_pos (requests back_seek_bfqd 2)) + unat (back_max_sectors back_seek_bfqd) < 2 ^ 64 \<and>
   spec_prefers (unat (back_max_sectors back_seek_bfqd)) (unat (bfq_back_penalty back_seek_bfqd))
     (unat (1000 :: sector_t)) (requests back_seek_bfqd 2) (requests back_seek_bfqd 1) \<and>
   bfq_choose_req back_seek_bfqd (Some 1) (Some 2) 1000 = Some 2"
proof -
  have ne: "(1::nat) \<noteq> 2" by simp
  have o1: "(1000 :: sector_t) \<le> blk_rq_pos (requests back_seek_bfqd 1)"
    by (simp add: back_seek_bfqd_def example_bfqd_def example_rq_def blk_rq_pos_def)
  have o2: "unat (blk_rq_pos (requests back_seek_bfqd 2)) + unat (back_max_sectors back_seek_bfqd) < 2 ^ 64"
    by (simp add: back_seek_bfqd_def example_bfqd_def example_rq_def blk_rq_pos_def back_max_sectors_def)
  have pr: "spec_prefers (unat (back_max_sectors back_seek_bfqd)) (unat (bfq_back_penalty back_seek_bfqd))
     (unat (1000 :: sector_t)) (requests back_seek_bfqd 2) (requests back_seek_bfqd 1)"
    by (simp add: back_seek_bfqd_def example_bfqd_def example_rq_def blk_rq_pos_def back_max_sectors_def
        spec_prefers_def spec_seek_cost_def rq_is_sync_def)
  show ?thesis
    using bfq_choose_req_order [OF ne disjI1 [OF o1] disjI2 [OF o2]] ne o1 o2 pr by simp
qed

text \<open>
  C1 as stated fails where \<open>sector + back_max\<close> wraps around. With the head at the
  last sector, request 1 is one sector behind the head, within the allowance of 32768
  sectors, and request 2 is beyond it; the specification's order prefers request 1. In
  the source \<open>s1 + back_max\<close> wraps to 32766, below \<open>last\<close>, so request 1 counts
  as a wrap-around too, and of the two wrap-arounds request 2 has the smaller sector.
\<close>

theorem bfq_choose_req_order_counterexample:
  "spec_seek_cost (unat (back_max_sectors top_sector_bfqd)) (unat (bfq_back_penalty top_sector_bfqd))
     (unat (18446744073709551615 :: sector_t)) (unat (blk_rq_pos (requests top_sector_bfqd 1)))
     = Some 2 \<and>
   spec_seek_cost (unat (back_max_sectors top_sector_bfqd)) (unat (bfq_back_penalty top_sector_bfqd))
     (unat (18446744073709551615 :: sector_t)) (unat (blk_rq_pos (requests top_sector_bfqd 2)))
     = None \<and>
   spec_prefers (unat (back_max_sectors top_sector_bfqd)) (unat (bfq_back_penalty top_sector_bfqd))
     (unat (18446744073709551615 :: sector_t))
     (requests top_sector_bfqd 1) (requests top_sector_bfqd 2) \<and>
   bfq_choose_req top_sector_bfqd (Some 1) (Some 2) 18446744073709551615 = Some 2"
  by (simp add: top_sector_bfqd_def example_bfqd_def example_rq_def blk_rq_pos_def back_max_sectors_def
        spec_prefers_def spec_seek_cost_def rq_is_sync_def bfq_choose_req_def Let_def
        bfq_rq_distance_def BFQ_RQ1_WRAP_def BFQ_RQ2_WRAP_def)

text \<open>
  C2. The service charged is the sector count of the request times
  \<open>1 + bfq_async_charge_factor\<close>, with a factor of 10, exactly when the queue is async
  and its \<open>wr_coeff\<close> is 1, and the plain sector count otherwise: as numbers (a request
  has fewer than \<open>2 ^ 23\<close> sectors, so the 32-bit product does not wrap), and as the
  32-bit product widened to \<open>unsigned long\<close>.
\<close>

theorem bfq_serv_to_charge_async_factor:
  "unat (bfq_serv_to_charge rq bfqq) =
     (if \<not> sync bfqq \<and> wr_coeff bfqq = 1
      then unat (blk_rq_sectors rq) * (1 + nat bfq_async_charge_factor)
      else unat (blk_rq_sectors rq)) \<and>
   bfq_serv_to_charge rq bfqq =
     (if \<not> sync bfqq \<and> wr_coeff bfqq = 1
      then ucast (blk_rq_sectors rq * (1 + word_of_int bfq_async_charge_factor))
      else ucast (blk_rq_sectors rq)) \<and>
   bfq_async_charge_factor = 10"
  by (simp add: bfq_serv_to_charge_def bfq_async_charge_factor_def unat_ucast_up
      charge_no_overflow)

text \<open>
  The theorem at a request of eight sectors: an async queue that is not weight-raised
  is charged 88 sectors.
\<close>

theorem bfq_serv_to_charge_async_factor_witness:
  "unat (bfq_serv_to_charge example_rq (example_bfqq \<lparr> sync := False \<rparr>)) = 88"
  using bfq_serv_to_charge_async_factor [of example_rq "example_bfqq \<lparr> sync := False \<rparr>"]
  by (simp add: example_rq_def example_bfqq_def blk_rq_sectors_def bfq_async_charge_factor_def)

text \<open>
  C8. The back-seek scenario of the specification: with the head at sector 1000, an
  allowance of 2000 sectors (\<open>bfq_back_max\<close> of 1000 KiB) and a penalty of 2, a
  request at sector 2000 has distance 1000, a request at sector 900 has distance
  \<open>(1000 - 900) * 2 = 200\<close>, neither wraps, and of two such sync requests with equal
  metadata flags \<open>bfq_choose_req\<close> returns the second.
\<close>

theorem bfq_choose_req_back_seek_scenario:
  "bfq_rq_distance 2000 1000 (back_max_sectors (bfqd \<lparr> bfq_back_max := 1000 \<rparr>)) 2 BFQ_RQ1_WRAP
     = (1000, 0) \<and>
   bfq_rq_distance 900 1000 (back_max_sectors (bfqd \<lparr> bfq_back_max := 1000 \<rparr>)) 2 BFQ_RQ2_WRAP
     = (200, 0) \<and>
   back_max_sectors (bfqd \<lparr> bfq_back_max := 1000 \<rparr>) = 2000 \<and>
   bfq_choose_req
     (bfqd \<lparr> requests := (requests bfqd)
         (1 := r1 \<lparr> sector := 2000, is_sync := True, req_meta := m \<rparr>,
          2 := r2 \<lparr> sector := 900, is_sync := True, req_meta := m \<rparr>),
        bfq_back_max := 1000, bfq_back_penalty := 2 \<rparr>)
     (Some 1) (Some 2) 1000 = Some 2"
  by (simp add: bfq_choose_req_def Let_def bfq_rq_distance_def back_max_sectors_def
      rq_is_sync_def blk_rq_pos_def BFQ_RQ1_WRAP_def BFQ_RQ2_WRAP_def)

text \<open>
  C9. \<open>bfq_choose_req\<close> returns one of its two arguments: the second when the first
  is null or both are the same request, the first when only the second is null, and a
  request whenever one of the two is a request.
\<close>

theorem bfq_choose_req_returns_argument:
  "bfq_choose_req bfqd rq1 rq2 last_pos \<in> {rq1, rq2} \<and>
   (if rq1 = None \<or> rq1 = rq2 then bfq_choose_req bfqd rq1 rq2 last_pos = rq2
    else if rq2 = None then bfq_choose_req bfqd rq1 rq2 last_pos = rq1
    else bfq_choose_req bfqd rq1 rq2 last_pos \<noteq> None) \<and>
   (if rq1 = None \<and> rq2 = None then bfq_choose_req bfqd rq1 rq2 last_pos = None
    else bfq_choose_req bfqd rq1 rq2 last_pos \<noteq> None)"
  by (auto simp: bfq_choose_req_def Let_def split_beta)

text \<open>The theorem at a null first argument and at a null second argument.\<close>

theorem bfq_choose_req_returns_argument_witness:
  "bfq_choose_req example_bfqd None (Some 1) 0 = Some 1 \<and>
   bfq_choose_req example_bfqd (Some 1) None 0 = Some 1"
  using bfq_choose_req_returns_argument [of example_bfqd None "Some 1" 0]
    bfq_choose_req_returns_argument [of example_bfqd "Some 1" None 0]
  by simp

text \<open>
  C3. When \<open>bfq_add_to_burst\<close> brings \<open>burst_size\<close> to
  \<open>bfq_large_burst_thresh\<close>, every queue on the burst list and the newly activated
  queue are marked \<open>in_large_burst\<close>, the burst list is emptied and the device
  enters large-burst mode; otherwise the new queue is only put on the burst list, no
  queue is changed and the mode is unchanged. In large-burst mode, with the list
  discarded, any queue activated within \<open>bfq_burst_interval\<close> of the last insertion
  is marked by \<open>bfq_handle_burst\<close>, the list stays empty and the other queues are
  left as they are. Before the burst is large, a queue that is not yet part of the
  burst and is activated within the interval is handed to \<open>bfq_add_to_burst\<close>.
\<close>

theorem bfq_large_burst_marking:
  "(burst_size bfqd + 1 = bfq_large_burst_thresh bfqd \<longrightarrow>
      (\<forall>x \<in> set (burst_list bfqd) \<union> {q}. in_large_burst (queues (bfq_add_to_burst bfqd q) x)) \<and>
      burst_list (bfq_add_to_burst bfqd q) = [] \<and>
      large_burst (bfq_add_to_burst bfqd q)) \<and>
   (burst_size bfqd + 1 \<noteq> bfq_large_burst_thresh bfqd \<longrightarrow>
      burst_list (bfq_add_to_burst bfqd q) = q # burst_list bfqd \<and>
      queues (bfq_add_to_burst bfqd q) = queues bfqd \<and>
      large_burst (bfq_add_to_burst bfqd q) = large_burst bfqd) \<and>
   (large_burst bfqd \<and> burst_list bfqd = [] \<and>
    \<not> time_is_before_jiffies jiffies (last_ins_in_burst bfqd + bfq_burst_interval bfqd) \<longrightarrow>
      in_large_burst (queues (bfq_handle_burst bfqd q idle jiffies) q) \<and>
      burst_list (bfq_handle_burst bfqd q idle jiffies) = [] \<and>
      large_burst (bfq_handle_burst bfqd q idle jiffies) \<and>
      (\<forall>x. x \<noteq> q \<longrightarrow> queues (bfq_handle_burst bfqd q idle jiffies) x = queues bfqd x)) \<and>
   (\<not> large_burst bfqd \<and> q \<notin> set (burst_list bfqd) \<and> \<not> in_large_burst (queues bfqd q) \<and>
    \<not> time_is_before_jiffies jiffies (last_ins_in_burst bfqd + bfq_burst_interval bfqd) \<longrightarrow>
      bfq_handle_burst bfqd q idle jiffies = bfq_add_to_burst bfqd q)"
proof (intro conjI impI)
  assume a: "burst_size bfqd + 1 = bfq_large_burst_thresh bfqd"
  show "\<forall>x \<in> set (burst_list bfqd) \<union> {q}. in_large_burst (queues (bfq_add_to_burst bfqd q) x)"
    by (auto simp: add_to_burst_large(1) [OF a])
  show "burst_list (bfq_add_to_burst bfqd q) = []" by (rule add_to_burst_large(2) [OF a])
  show "large_burst (bfq_add_to_burst bfqd q)" by (rule add_to_burst_large(3) [OF a])
next
  assume a: "burst_size bfqd + 1 \<noteq> bfq_large_burst_thresh bfqd"
  show "burst_list (bfq_add_to_burst bfqd q) = q # burst_list bfqd"
    by (rule add_to_burst_small(2) [OF a])
  show "queues (bfq_add_to_burst bfqd q) = queues bfqd" by (rule add_to_burst_small(1) [OF a])
  show "large_burst (bfq_add_to_burst bfqd q) = large_burst bfqd"
    by (rule add_to_burst_small(3) [OF a])
next
  assume a: "large_burst bfqd \<and> burst_list bfqd = [] \<and>
    \<not> time_is_before_jiffies jiffies (last_ins_in_burst bfqd + bfq_burst_interval bfqd)"
  then have l: "large_burst bfqd" and e: "burst_list bfqd = []"
    and t: "\<not> time_is_before_jiffies jiffies (last_ins_in_burst bfqd + bfq_burst_interval bfqd)"
    by simp_all
  show "in_large_burst (queues (bfq_handle_burst bfqd q idle jiffies) q)"
    by (rule handle_burst_large_mode(1) [OF l e t])
  show "burst_list (bfq_handle_burst bfqd q idle jiffies) = []"
    by (rule handle_burst_large_mode(2) [OF l e t])
  show "large_burst (bfq_handle_burst bfqd q idle jiffies)"
    by (rule handle_burst_large_mode(3) [OF l e t])
  show "\<forall>x. x \<noteq> q \<longrightarrow> queues (bfq_handle_burst bfqd q idle jiffies) x = queues bfqd x"
    using handle_burst_large_mode(4) [OF l e t] by blast
next
  assume a: "\<not> large_burst bfqd \<and> q \<notin> set (burst_list bfqd) \<and>
    \<not> in_large_burst (queues bfqd q) \<and>
    \<not> time_is_before_jiffies jiffies (last_ins_in_burst bfqd + bfq_burst_interval bfqd)"
  then have "bfq_handle_burst bfqd q idle jiffies =
           (if large_burst bfqd then bfq_mark_bfqq_in_large_burst q bfqd
            else bfq_add_to_burst bfqd q)"
    by (intro handle_burst_fresh) simp_all
  then show "bfq_handle_burst bfqd q idle jiffies = bfq_add_to_burst bfqd q"
    using a by simp
qed

text \<open>
  The theorem at a burst whose eighth activation reaches the threshold of 8, at a first
  activation, at an activation in large-burst mode 10 ticks after the last insertion,
  and at the eighth activation again, through \<open>bfq_handle_burst\<close>.
\<close>

theorem bfq_large_burst_marking_witness:
  "burst_size burst_bfqd + 1 = bfq_large_burst_thresh burst_bfqd \<and>
   in_large_burst (queues (bfq_add_to_burst burst_bfqd 9) 2) \<and>
   in_large_burst (queues (bfq_add_to_burst burst_bfqd 9) 9) \<and>
   burst_list (bfq_add_to_burst burst_bfqd 9) = [] \<and>
   large_burst (bfq_add_to_burst burst_bfqd 9) \<and>
   burst_size example_bfqd + 1 \<noteq> bfq_large_burst_thresh example_bfqd \<and>
   burst_list (bfq_add_to_burst example_bfqd 9) = [9] \<and>
   large_burst large_burst_bfqd \<and> burst_list large_burst_bfqd = [] \<and>
   \<not> time_is_before_jiffies 110
       (last_ins_in_burst large_burst_bfqd + bfq_burst_interval large_burst_bfqd) \<and>
   in_large_burst (queues (bfq_handle_burst large_burst_bfqd 9 False 110) 9) \<and>
   burst_list (bfq_handle_burst large_burst_bfqd 9 False 110) = [] \<and>
   \<not> large_burst burst_bfqd \<and> 9 \<notin> set (burst_list burst_bfqd) \<and>
   \<not> in_large_burst (queues burst_bfqd 9) \<and>
   \<not> time_is_before_jiffies 110
       (last_ins_in_burst burst_bfqd + bfq_burst_interval burst_bfqd) \<and>
   bfq_handle_burst burst_bfqd 9 False 110 = bfq_add_to_burst burst_bfqd 9"
proof -
  have a: "burst_size burst_bfqd + 1 = bfq_large_burst_thresh burst_bfqd"
    by (simp add: burst_bfqd_def example_bfqd_def)
  have m: "2 \<in> set (burst_list burst_bfqd) \<union> {9}" "9 \<in> set (burst_list burst_bfqd) \<union> {9::nat}"
    by (simp_all add: burst_bfqd_def)
  have b: "burst_size example_bfqd + 1 \<noteq> bfq_large_burst_thresh example_bfqd"
    "burst_list example_bfqd = []"
    by (simp_all add: example_bfqd_def)
  have c: "large_burst large_burst_bfqd" "burst_list large_burst_bfqd = []"
    "\<not> time_is_before_jiffies 110
       (last_ins_in_burst large_burst_bfqd + bfq_burst_interval large_burst_bfqd)"
    by (simp_all add: large_burst_bfqd_def example_bfqd_def
        time_is_before_jiffies_def time_after_def)
  have d: "\<not> large_burst burst_bfqd" "9 \<notin> set (burst_list burst_bfqd)"
    "\<not> in_large_burst (queues burst_bfqd 9)"
    "\<not> time_is_before_jiffies 110
       (last_ins_in_burst burst_bfqd + bfq_burst_interval burst_bfqd)"
    by (simp_all add: burst_bfqd_def example_bfqd_def example_bfqq_def
        time_is_before_jiffies_def time_after_def)
  show ?thesis
    using bfq_large_burst_marking [of burst_bfqd 9 110 False]
      bfq_large_burst_marking [of example_bfqd 9 110 False]
      bfq_large_burst_marking [of large_burst_bfqd 9 110 False] a m b c d
    by simp
qed

text \<open>
  C4, as amended. In every execution of \<open>bfq_add_request\<close> for a queue that is not
  busy, if the queue is in a large burst once the burst handling is done (the local
  \<open>in_burst\<close>), then the call returns, the queue is busy and still marked, and
  neither trigger has fired: a \<open>wr_coeff\<close> of 1 stays 1. A queue that was already
  weight-raised has its \<open>wr_coeff\<close> reset to 1 when \<open>low_latency\<close> is on; when
  \<open>low_latency\<close> is off, \<open>wr_coeff\<close> is left as it was. Whenever the call
  returns, the queue's \<open>in_large_burst\<close> flag is the value of \<open>in_burst\<close>.
\<close>

theorem bfq_add_request_large_burst:
  assumes "\<not> busy (queues bfqd (elv_priv_bfqq (requests bfqd rq)))"
  shows "(bfq_add_request_in_burst bfqd rq jiffies \<longrightarrow>
           (\<exists>bfqd'. bfq_add_request bfqd rq jiffies = Inr bfqd' \<and>
              busy (queues bfqd' (elv_priv_bfqq (requests bfqd rq))) \<and>
              in_large_burst (queues bfqd' (elv_priv_bfqq (requests bfqd rq))) \<and>
              wr_coeff (queues bfqd' (elv_priv_bfqq (requests bfqd rq))) =
                (if low_latency bfqd \<and>
                    wr_coeff (queues bfqd (elv_priv_bfqq (requests bfqd rq))) > 1
                 then 1
                 else wr_coeff (queues bfqd (elv_priv_bfqq (requests bfqd rq)))))) \<and>
         (\<forall>bfqd'. bfq_add_request bfqd rq jiffies = Inr bfqd' \<longrightarrow>
            in_large_burst (queues bfqd' (elv_priv_bfqq (requests bfqd rq))) =
              bfq_add_request_in_burst bfqd rq jiffies)"
proof -
  define q where "q = elv_priv_bfqq (requests bfqd rq)"
  obtain d nrq where run: "bfq_add_request bfqd rq jiffies =
           bfq_add_request_idle d rq q nrq (wr_coeff (queues bfqd q)) jiffies"
    and v: "burst_view d = burst_view bfqd"
    and f: "\<And>x. sync (queues d x) = sync (queues bfqd x)"
           "\<And>x. budget_timeout (queues d x) = budget_timeout (queues bfqd x)"
           "\<And>x. wr_coeff (queues d x) = wr_coeff (queues bfqd x)"
    and g: "bfq_wr_min_idle_time d = bfq_wr_min_idle_time bfqd" "low_latency d = low_latency bfqd"
    using add_request_enters_idle_branch [OF assms, of jiffies] unfolding q_def by blast
  define idle where "idle = time_is_before_jiffies jiffies
                 (budget_timeout (queues bfqd q) + bfq_wr_min_idle_time bfqd)"
  have "burst_view (bfq_add_request_burst d q idle jiffies) =
        burst_view (bfq_add_request_burst bfqd q idle jiffies)"
    by (rule view_cong_add_request_burst [OF v f(1)])
  from view_fields [OF this]
  have "in_large_burst (queues (bfq_add_request_burst d q idle jiffies) q) =
        in_large_burst (queues (bfq_add_request_burst bfqd q idle jiffies) q)"
    by blast
  then have fl: "in_large_burst (queues (bfq_add_request_burst d q idle jiffies) q) =
                 bfq_add_request_in_burst bfqd rq jiffies"
    by (simp add: bfq_add_request_in_burst_def Let_def q_def idle_def)
  have idle_d: "time_is_before_jiffies jiffies
                 (budget_timeout (queues d q) + bfq_wr_min_idle_time d) = idle"
    by (simp add: idle_def f g)
  have flag: "in_large_burst (queues bfqd' q) = bfq_add_request_in_burst bfqd rq jiffies"
    and bz: "busy (queues bfqd' q)"
    if "bfq_add_request bfqd rq jiffies = Inr bfqd'" for bfqd'
    using add_request_idle_flag [of d rq q nrq "wr_coeff (queues bfqd q)" jiffies bfqd'] that
    by (simp_all add: run idle_d fl)
  have "\<exists>bfqd'. bfq_add_request bfqd rq jiffies = Inr bfqd' \<and> busy (queues bfqd' q) \<and>
              in_large_burst (queues bfqd' q) \<and>
              wr_coeff (queues bfqd' q) =
                (if low_latency bfqd \<and> wr_coeff (queues bfqd q) > 1 then 1
                 else wr_coeff (queues bfqd q))"
    if ib: "bfq_add_request_in_burst bfqd rq jiffies"
  proof -
    have "in_large_burst (queues (bfq_add_request_burst d q
              (time_is_before_jiffies jiffies
                 (budget_timeout (queues d q) + bfq_wr_min_idle_time d)) jiffies) q)"
      using ib by (simp add: idle_d fl)
    from add_request_idle_returns [OF this, of rq nrq "wr_coeff (queues bfqd q)"]
    obtain bfqd' where r: "bfq_add_request_idle d rq q nrq (wr_coeff (queues bfqd q)) jiffies = Inr bfqd'"
      by blast
    then have r': "bfq_add_request bfqd rq jiffies = Inr bfqd'" by (simp add: run)
    have lb: "in_large_burst (queues bfqd' q)" using flag [OF r'] ib by simp
    have "wr_coeff (queues bfqd' q) =
           (if low_latency d \<and> wr_coeff (queues bfqd q) > 1 then 1 else wr_coeff (queues d q))"
      by (rule add_request_idle_in_burst [OF r lb])
    then show ?thesis using r' lb bz [OF r'] by (simp add: f g)
  qed
  then show ?thesis using flag unfolding q_def by blast
qed

text \<open>
  The theorem at a weight-raised idle queue in a large burst, with \<open>low_latency\<close>
  on: after the request is added the queue's \<open>wr_coeff\<close> is 1.
\<close>

theorem bfq_add_request_large_burst_witness:
  "\<not> busy (queues raised_burst_bfqd (elv_priv_bfqq (requests raised_burst_bfqd 1))) \<and>
   bfq_add_request_in_burst raised_burst_bfqd 1 10 \<and>
   low_latency raised_burst_bfqd \<and>
   wr_coeff (queues raised_burst_bfqd (elv_priv_bfqq (requests raised_burst_bfqd 1))) = 30 \<and>
   bfq_add_request raised_burst_bfqd 1 10 = Inr (projr (bfq_add_request raised_burst_bfqd 1 10)) \<and>
   in_large_burst (queues (projr (bfq_add_request raised_burst_bfqd 1 10))
     (elv_priv_bfqq (requests raised_burst_bfqd 1))) \<and>
   wr_coeff (queues (projr (bfq_add_request raised_burst_bfqd 1 10))
     (elv_priv_bfqq (requests raised_burst_bfqd 1))) = 1"
proof -
  have nb: "\<not> busy (queues raised_burst_bfqd (elv_priv_bfqq (requests raised_burst_bfqd 1)))"
    by (simp add: raised_burst_bfqd_def example_bfqd_def example_bfqq_def example_rq_def)
  have ib: "bfq_add_request_in_burst raised_burst_bfqd 1 10"
    by (simp add: raised_burst_bfqd_def example_bfqd_def example_bfqq_def example_rq_def
        bfq_add_request_in_burst_def bfq_add_request_burst_def bfq_handle_burst_def Let_def
        time_is_before_jiffies_def time_after_def)
  have old: "wr_coeff (queues raised_burst_bfqd (elv_priv_bfqq (requests raised_burst_bfqd 1))) = 30"
    "low_latency raised_burst_bfqd"
    by (simp_all add: raised_burst_bfqd_def example_bfqd_def example_bfqq_def example_rq_def)
  from bfq_add_request_large_burst [OF nb, of 10] ib old
  obtain bfqd' where "bfq_add_request raised_burst_bfqd 1 10 = Inr bfqd'"
    and "in_large_burst (queues bfqd' (elv_priv_bfqq (requests raised_burst_bfqd 1)))"
    and "wr_coeff (queues bfqd' (elv_priv_bfqq (requests raised_burst_bfqd 1))) = 1"
    by auto
  then show ?thesis using nb ib old by simp
qed

text \<open>
  C4 as stated fails where \<open>low_latency\<close> is off: the source jumps to
  \<open>add_bfqq_busy\<close> before the weight-raising decision, and the weight-raised queue in
  a large burst goes from idle to busy with its \<open>wr_coeff\<close> of 30.
\<close>

theorem bfq_add_request_large_burst_counterexample:
  "\<not> busy (queues gated_bfqd (elv_priv_bfqq (requests gated_bfqd 1))) \<and>
   bfq_add_request_in_burst gated_bfqd 1 10 \<and>
   bfq_add_request gated_bfqd 1 10 = Inr (projr (bfq_add_request gated_bfqd 1 10)) \<and>
   in_large_burst (queues (projr (bfq_add_request gated_bfqd 1 10))
     (elv_priv_bfqq (requests gated_bfqd 1))) \<and>
   busy (queues (projr (bfq_add_request gated_bfqd 1 10))
     (elv_priv_bfqq (requests gated_bfqd 1))) \<and>
   wr_coeff (queues gated_bfqd (elv_priv_bfqq (requests gated_bfqd 1))) = 30 \<and>
   wr_coeff (queues (projr (bfq_add_request gated_bfqd 1 10))
     (elv_priv_bfqq (requests gated_bfqd 1))) = 30"
  by (simp add: gated_bfqd_def raised_burst_bfqd_def example_bfqd_def example_bfqq_def
      example_rq_def example_entity_def bfq_add_request_def Let_def upd_bfqq_def
      bfq_choose_req_def rq_is_sync_def bfq_add_request_idle_def bfq_add_request_burst_def
      bfq_handle_burst_def bfq_add_request_io_bound_def bfq_add_request_wr_def
      time_is_before_jiffies_def time_after_def time_before_def bfq_add_bfqq_busy_def
      bfq_activate_bfqq_def bfq_serv_to_charge_def blk_rq_sectors_def
      bfq_async_charge_factor_def bfq_add_request_in_burst_def)

text \<open>
  C5. If the queue is the in-service queue, \<open>bfq_updated_next_req\<close> returns the
  state it was given: no budget is changed and no entity is activated. Whenever the
  call changes the state, the queue is not in service, it has a next request, its
  budget has become the maximum of \<open>max_budget\<close> and the charge of that request, the
  queue has been activated, and no other queue is touched.
\<close>

theorem bfq_updated_next_req_in_service:
  "(in_service_queue bfqd = Some q \<longrightarrow> bfq_updated_next_req bfqd q = Inr bfqd) \<and>
   (bfq_updated_next_req bfqd q = Inr bfqd' \<and> bfqd' \<noteq> bfqd \<longrightarrow>
      in_service_queue bfqd \<noteq> Some q \<and> next_rq (queues bfqd q) \<noteq> None \<and>
      budget (entity (queues bfqd' q)) =
        max (max_budget (queues bfqd q))
            (bfq_serv_to_charge (requests bfqd (the (next_rq (queues bfqd q)))) (queues bfqd q)) \<and>
      budget (entity (queues bfqd' q)) \<noteq> budget (entity (queues bfqd q)) \<and>
      activated bfqd' = q # activated bfqd \<and>
      (\<forall>q'. q' \<noteq> q \<longrightarrow> queues bfqd' q' = queues bfqd q'))"
  by (auto simp: bfq_updated_next_req_def Let_def bfq_activate_bfqq_def upd_bfqq_def
      split: option.splits if_splits)

text \<open>
  The theorem at a queue in service, and at the same queue waiting for service with a
  budget of 0: its budget becomes \<open>max_budget\<close> and it is activated.
\<close>

theorem bfq_updated_next_req_in_service_witness:
  "in_service_queue serving_bfqd = Some 0 \<and>
   bfq_updated_next_req serving_bfqd 0 = Inr serving_bfqd \<and>
   bfq_updated_next_req waiting_bfqd 0 = Inr (projr (bfq_updated_next_req waiting_bfqd 0)) \<and>
   projr (bfq_updated_next_req waiting_bfqd 0) \<noteq> waiting_bfqd \<and>
   budget (entity (queues (projr (bfq_updated_next_req waiting_bfqd 0)) 0)) = 16384 \<and>
   activated (projr (bfq_updated_next_req waiting_bfqd 0)) = [0]"
proof -
  have s: "in_service_queue serving_bfqd = Some 0" by (simp add: serving_bfqd_def)
  have r: "bfq_updated_next_req waiting_bfqd 0 = Inr (projr (bfq_updated_next_req waiting_bfqd 0))"
    by (simp add: bfq_updated_next_req_def waiting_bfqd_def example_bfqd_def example_bfqq_def
        example_entity_def example_rq_def Let_def bfq_serv_to_charge_def blk_rq_sectors_def
        bfq_async_charge_factor_def)
  have "activated (projr (bfq_updated_next_req waiting_bfqd 0)) \<noteq> activated waiting_bfqd"
    by (simp add: bfq_updated_next_req_def waiting_bfqd_def example_bfqd_def example_bfqq_def
        example_entity_def example_rq_def Let_def bfq_serv_to_charge_def blk_rq_sectors_def
        bfq_async_charge_factor_def bfq_activate_bfqq_def upd_bfqq_def)
  then have n: "projr (bfq_updated_next_req waiting_bfqd 0) \<noteq> waiting_bfqd" by auto
  have v: "max (max_budget (queues waiting_bfqd 0))
            (bfq_serv_to_charge (requests waiting_bfqd (the (next_rq (queues waiting_bfqd 0))))
               (queues waiting_bfqd 0)) = 16384" "activated waiting_bfqd = []"
    by (simp_all add: waiting_bfqd_def example_bfqd_def example_bfqq_def example_rq_def
        bfq_serv_to_charge_def blk_rq_sectors_def bfq_async_charge_factor_def)
  show ?thesis
    using bfq_updated_next_req_in_service [of serving_bfqd 0 serving_bfqd]
      bfq_updated_next_req_in_service [of waiting_bfqd 0 "projr (bfq_updated_next_req waiting_bfqd 0)"]
      s r n v
    by simp
qed

text \<open>
  C10. \<open>bfq_handle_burst\<close> for a queue that has been idle for a long time is
  \<open>bfq_handle_burst\<close> for the queue taken off the burst list and with its
  \<open>in_large_burst\<close> flag cleared: the queue is then neither on the list nor marked,
  so the burst-membership decision is that of a fresh queue. A mark set before the
  call has no effect on the result, and after the call the queue is marked exactly
  when the activation falls within \<open>bfq_burst_interval\<close> of the last insertion and
  the burst is large or becomes large with this activation.
\<close>

theorem bfq_handle_burst_long_idle:
  "bfq_handle_burst bfqd q True jiffies =
     bfq_handle_burst (bfq_clear_bfqq_in_large_burst q (hlist_del_init q bfqd)) q False jiffies \<and>
   q \<notin> set (burst_list (bfq_clear_bfqq_in_large_burst q (hlist_del_init q bfqd))) \<and>
   \<not> in_large_burst (queues (bfq_clear_bfqq_in_large_burst q (hlist_del_init q bfqd)) q) \<and>
   bfq_handle_burst (upd_bfqq q (\<lambda>b. b \<lparr> in_large_burst := m \<rparr>) bfqd) q True jiffies =
     bfq_handle_burst bfqd q True jiffies \<and>
   in_large_burst (queues (bfq_handle_burst bfqd q True jiffies) q) =
     (\<not> time_is_before_jiffies jiffies (last_ins_in_burst bfqd + bfq_burst_interval bfqd) \<and>
      (large_burst bfqd \<or> burst_size bfqd + 1 = bfq_large_burst_thresh bfqd))"
proof (intro conjI)
  show "bfq_handle_burst bfqd q True jiffies =
     bfq_handle_burst (bfq_clear_bfqq_in_large_burst q (hlist_del_init q bfqd)) q False jiffies"
    by (simp add: bfq_handle_burst_def)
  show "q \<notin> set (burst_list (bfq_clear_bfqq_in_large_burst q (hlist_del_init q bfqd)))"
    by (simp add: bfq_clear_bfqq_in_large_burst_def hlist_del_init_def upd_bfqq_def)
  show "\<not> in_large_burst (queues (bfq_clear_bfqq_in_large_burst q (hlist_del_init q bfqd)) q)"
    by (simp add: bfq_clear_bfqq_in_large_burst_def hlist_del_init_def upd_bfqq_def)
  have "bfq_clear_bfqq_in_large_burst q
          (hlist_del_init q (upd_bfqq q (\<lambda>b. b \<lparr> in_large_burst := m \<rparr>) bfqd)) =
        bfq_clear_bfqq_in_large_burst q (hlist_del_init q bfqd)"
    by (simp add: bfq_clear_bfqq_in_large_burst_def hlist_del_init_def upd_bfqq_def)
  then show "bfq_handle_burst (upd_bfqq q (\<lambda>b. b \<lparr> in_large_burst := m \<rparr>) bfqd) q True jiffies =
     bfq_handle_burst bfqd q True jiffies"
    by (simp add: bfq_handle_burst_def)
  show "in_large_burst (queues (bfq_handle_burst bfqd q True jiffies) q) =
     (\<not> time_is_before_jiffies jiffies (last_ins_in_burst bfqd + bfq_burst_interval bfqd) \<and>
      (large_burst bfqd \<or> burst_size bfqd + 1 = bfq_large_burst_thresh bfqd))"
    by (rule handle_burst_long_idle_flag)
qed

text \<open>
  The theorem at a marked queue that comes back after a long idle period, later than
  \<open>bfq_burst_interval\<close> after the last insertion: it is the first queue of a new
  burst and is not marked.
\<close>

theorem bfq_handle_burst_long_idle_witness:
  "in_large_burst (queues raised_burst_bfqd 0) \<and>
   time_is_before_jiffies 1000
     (last_ins_in_burst raised_burst_bfqd + bfq_burst_interval raised_burst_bfqd) \<and>
   \<not> in_large_burst (queues (bfq_handle_burst raised_burst_bfqd 0 True 1000) 0)"
proof -
  have "in_large_burst (queues raised_burst_bfqd 0)"
    "time_is_before_jiffies 1000
       (last_ins_in_burst raised_burst_bfqd + bfq_burst_interval raised_burst_bfqd)"
    by (simp_all add: raised_burst_bfqd_def example_bfqd_def example_bfqq_def
        time_is_before_jiffies_def time_after_def)
  then show ?thesis
    using bfq_handle_burst_long_idle [of raised_burst_bfqd 0 1000 True,
        THEN conjunct2, THEN conjunct2, THEN conjunct2, THEN conjunct2]
    by simp
qed

text \<open>
  C6. If the entity is already associated with a weight counter,
  \<open>bfq_weights_tree_add\<close> returns the entity and the tree as they are, so no
  counter's \<open>num_active\<close> changes. After a call that returns, the entity is
  associated with a counter, so a second call in a row changes nothing: two calls have
  the effect of one.
\<close>

theorem bfq_weights_tree_add_idempotent:
  "(weight_counter ent \<noteq> None \<longrightarrow> bfq_weights_tree_add ok ent root = Inr (ent, root)) \<and>
   (bfq_weights_tree_add ok ent root = Inr (ent', root') \<longrightarrow>
      weight_counter ent' \<noteq> None \<and>
      bfq_weights_tree_add ok' ent' root' = Inr (ent', root'))"
  by (auto simp: bfq_weights_tree_add_def split: option.splits if_splits)

text \<open>
  The theorem at an entity that has a counter, and at an entity without one: the first
  call creates the counter with a count of 1, the second leaves it at 1.
\<close>

theorem bfq_weights_tree_add_idempotent_witness:
  "weight_counter tracked_entity \<noteq> None \<and>
   bfq_weights_tree_add True tracked_entity one_counter_tree =
     Inr (tracked_entity, one_counter_tree) \<and>
   bfq_weights_tree_add True example_entity RB_EMPTY = Inr (tracked_entity, one_counter_tree) \<and>
   bfq_weights_tree_add True tracked_entity one_counter_tree =
     Inr (tracked_entity, one_counter_tree)"
proof -
  have t: "weight_counter tracked_entity \<noteq> None" by (simp add: tracked_entity_def)
  have a: "bfq_weights_tree_add True example_entity RB_EMPTY =
             Inr (tracked_entity, one_counter_tree)"
    by (simp add: bfq_weights_tree_add_def example_entity_def tracked_entity_def
        one_counter_tree_def)
  show ?thesis
    using bfq_weights_tree_add_idempotent [of tracked_entity True one_counter_tree]
      bfq_weights_tree_add_idempotent
        [of example_entity True RB_EMPTY tracked_entity one_counter_tree True] t a
    by simp
qed

text \<open>
  C7. In every state that \<open>bfq_weights_tree_add\<close> and
  \<open>bfq_weights_tree_remove\<close> reach from the empty tree: for an entity without a
  counter, a call of \<open>bfq_weights_tree_add\<close> that returns, followed by
  \<open>bfq_weights_tree_remove\<close>, gives back the tree's counters (the same sequence,
  hence the same multiset, of weights with their \<open>num_active\<close>) and leaves the
  entity's \<open>weight_counter\<close> null; where the tree had no counter of the entity's
  weight, the add makes one node more and the remove erases it again. With memory
  available the add returns. The number of nodes of the tree is the number of distinct
  weights of the entities that are counted in it (added and not removed since).
\<close>

theorem bfq_weights_tree_add_remove:
  assumes "reachable es root"
  shows "(weight_counter ent = None \<and> bfq_weights_tree_add ok ent root = Inr (ent1, root1) \<longrightarrow>
            (\<exists>ent2 root2. bfq_weights_tree_remove ent1 root1 = Inr (ent2, root2) \<and>
               inorder root2 = inorder root \<and>
               mset (inorder root2) = mset (inorder root) \<and>
               weight_counter ent2 = None \<and>
               (wc_lookup root (weight ent) = None \<longrightarrow>
                  rb_count root1 = rb_count root + 1 \<and> rb_count root2 = rb_count root))) \<and>
         (\<exists>ent1 root1. bfq_weights_tree_add True ent root = Inr (ent1, root1)) \<and>
         rb_count root = card (weight ` {e \<in> set es. weight_counter e \<noteq> None})"
proof (intro conjI impI)
  note inv = reachable_inv [OF assms]
  {
    assume a: "weight_counter ent = None \<and> bfq_weights_tree_add ok ent root = Inr (ent1, root1)"
    then have r: "bfq_weights_tree_remove ent1 root1 = Inr (ent1 \<lparr> weight_counter := None \<rparr>, root)"
      using add_then_remove [OF inv] by blast
    from a have ins: "weights_tree_insert ok root (weight ent) = Some root1"
      by (auto simp: bfq_weights_tree_add_def split: option.splits)
    have "wc_lookup root (weight ent) = None \<longrightarrow> rb_count root1 = rb_count root + 1"
      using insert_new_count [OF ins] by blast
    then show "\<exists>ent2 root2. bfq_weights_tree_remove ent1 root1 = Inr (ent2, root2) \<and>
               inorder root2 = inorder root \<and>
               mset (inorder root2) = mset (inorder root) \<and>
               weight_counter ent2 = None \<and>
               (wc_lookup root (weight ent) = None \<longrightarrow>
                  rb_count root1 = rb_count root + 1 \<and> rb_count root2 = rb_count root)"
      using r by simp
  }
  show "\<exists>ent1 root1. bfq_weights_tree_add True ent root = Inr (ent1, root1)"
    using insert_total [of root "weight ent"]
    by (auto simp: bfq_weights_tree_add_def)
  have "search_tree root" using inv by (simp add: tree_inv_def)
  then show "rb_count root = card (weight ` {e \<in> set es. weight_counter e \<noteq> None})"
    using tracked_weights [OF inv] by (simp add: rb_count_card)
qed

text \<open>
  The theorem at the state reached by adding the first of two entities of weight 100:
  adding the second raises the counter to 2, removing it brings the counter back to 1,
  and the tree has one node for the one weight in use.
\<close>

theorem bfq_weights_tree_add_remove_witness:
  "reachable [tracked_entity, example_entity] one_counter_tree \<and>
   weight_counter example_entity = None \<and>
   bfq_weights_tree_add True example_entity one_counter_tree =
     Inr (tracked_entity, shared_counter_tree) \<and>
   bfq_weights_tree_remove tracked_entity shared_counter_tree =
     Inr (example_entity, one_counter_tree) \<and>
   wc_lookup RB_EMPTY (weight example_entity) = None \<and>
   rb_count one_counter_tree = rb_count RB_EMPTY + 1 \<and>
   rb_count one_counter_tree = 1 \<and>
   card (weight ` {e \<in> set [tracked_entity, example_entity]. weight_counter e \<noteq> None}) = 1"
proof -
  have i: "reachable [example_entity, example_entity] RB_EMPTY"
    by (rule reachable.init) (simp add: example_entity_def)
  have a0: "bfq_weights_tree_add True ([example_entity, example_entity] ! 0) RB_EMPTY =
              Inr (tracked_entity, one_counter_tree)"
    by (simp add: bfq_weights_tree_add_def example_entity_def tracked_entity_def
        one_counter_tree_def)
  have "reachable ([example_entity, example_entity][0 := tracked_entity]) one_counter_tree"
    by (rule reachable.add [OF i _ a0]) simp
  then have r: "reachable [tracked_entity, example_entity] one_counter_tree" by simp
  have n: "weight_counter example_entity = None" by (simp add: example_entity_def)
  have a: "bfq_weights_tree_add True example_entity one_counter_tree =
     Inr (tracked_entity, shared_counter_tree)"
    by (simp add: bfq_weights_tree_add_def example_entity_def tracked_entity_def
        one_counter_tree_def shared_counter_tree_def)
  have e: "example_entity \<lparr> weight_counter := Some 100 \<rparr> = tracked_entity"
    "tracked_entity \<lparr> weight_counter := None \<rparr> = example_entity"
    by (simp_all add: tracked_entity_def example_entity_def)
  have c: "rb_count one_counter_tree = 1" "rb_count RB_EMPTY = 0"
    by (simp_all add: rb_count_def one_counter_tree_def)
  show ?thesis
    using bfq_weights_tree_add_remove
        [OF r, of example_entity True tracked_entity shared_counter_tree]
      bfq_weights_tree_add_remove [OF i, of example_entity True tracked_entity one_counter_tree]
      r n a a0 e c
    by (auto simp: bfq_weights_tree_remove_def shared_counter_tree_def one_counter_tree_def
        tracked_entity_def example_entity_def)
qed

end
